theory Spec2Isabelle
  imports Main "HOL-Library.Word"
begin

unbundle bit_operations_syntax

section \<open>The Wayland clipboard client of adoctl\<close>

text \<open>
  The development follows \<^verbatim>\<open>pkg/clipboard/internal/wayland/protocol.go\<close> and the
  Linux build of \<^verbatim>\<open>pkg/clipboard\<close>.  Go byte slices and Go strings are both
  sequences of bytes; the conversions \<^verbatim>\<open>[]byte(s)\<close> and \<^verbatim>\<open>string(b)\<close> are the
  identity on them.  Go's \<^verbatim>\<open>int\<close> is the 64-bit integer of the Linux targets; the
  values held in it here stay below \<open>2 ^ 33\<close>, so they are written as \<open>nat\<close> and
  \<open>int\<close>.  The conversions to \<^verbatim>\<open>uint32\<close> and \<^verbatim>\<open>uint16\<close> truncate, as in Go.
\<close>

subsection \<open>Bytes and little-endian integers\<close>

type_synonym byte = "8 word"
type_synonym bytes = "byte list"
type_synonym u16 = "16 word"
type_synonym u32 = "32 word"

definition bytes_of :: "string \<Rightarrow> bytes" where
  "bytes_of s = map of_char s"

text \<open>\<^verbatim>\<open>binary.LittleEndian.PutUint32\<close> and \<^verbatim>\<open>binary.LittleEndian.Uint32\<close> on a
  slice of at least four bytes.\<close>

definition le_PutUint32 :: "u32 \<Rightarrow> bytes" where
  "le_PutUint32 v = [ucast v, ucast (drop_bit 8 v), ucast (drop_bit 16 v), ucast (drop_bit 24 v)]"

definition le_Uint32 :: "bytes \<Rightarrow> u32" where
  "le_Uint32 b = ucast (b ! 0) OR push_bit 8 (ucast (b ! 1))
                 OR push_bit 16 (ucast (b ! 2)) OR push_bit 24 (ucast (b ! 3))"

definition encodeUint32 :: "u32 \<Rightarrow> bytes" where
  "encodeUint32 v = le_PutUint32 v"

subsection \<open>Strings on the wire\<close>

text \<open>\<^verbatim>\<open>(length + 3) &^ 3\<close> on Go's \<^verbatim>\<open>int\<close>.\<close>

definition pad4 :: "nat \<Rightarrow> nat" where
  "pad4 n = nat ((int n + 3) AND NOT 3)"

text \<open>\<^verbatim>\<open>encodeString\<close>: the buffer of \<open>4 + padded\<close> zero bytes, the length written
  into its first four bytes after truncation to 32 bits, the string and its terminator
  copied behind.\<close>

definition encodeString :: "bytes \<Rightarrow> bytes" where
  "encodeString s =
     (let sBytes = s @ [0];
          len = length sBytes;
          padded = pad4 len
      in le_PutUint32 (of_nat len) @ sBytes @ replicate (padded - len) 0)"

datatype error =
    ErrShortLength
  | ErrShortData
  | ErrClosed
  | ErrSys nat
  | ErrNoRuntimeDir
  | ErrConnect nat
  | ErrSeatNotFound
  | ErrDCManagerNotFound

text \<open>\<^verbatim>\<open>decodeString\<close> returns Go's triple: the string, the remaining buffer and
  the error (\<open>None\<close> for \<^verbatim>\<open>nil\<close>).\<close>

definition decodeString :: "bytes \<Rightarrow> bytes \<times> bytes \<times> error option" where
  "decodeString data =
     (if length data < 4 then ([], data, Some ErrShortLength)
      else
        let len = unat (le_Uint32 (take 4 data));
            data' = drop 4 data
        in if len = 0 then ([], data', None)
           else
             let padded = pad4 len
             in if length data' < padded then ([], data', Some ErrShortData)
                else (take (len - 1) data', drop padded data', None))"

subsection \<open>The connection and the world around it\<close>

text \<open>Fixed object IDs of the session.\<close>

definition idDisplay :: u32 where "idDisplay = 1"
definition idRegistry :: u32 where "idRegistry = 2"
definition idCallback1 :: u32 where "idCallback1 = 3"
definition idSeat :: u32 where "idSeat = 4"
definition idDCManager :: u32 where "idDCManager = 5"
definition idDCSource :: u32 where "idDCSource = 6"
definition idDCDevice :: u32 where "idDCDevice = 7"
definition idCallback2 :: u32 where "idCallback2 = 8"

record waylandConn =
  fd :: int
  inBuf :: bytes
  pendingFds :: "int list"

text \<open>
  One result of \<^verbatim>\<open>syscall.Recvmsg\<close> on the socket: an error, or the bytes received
  together with the descriptors of the control messages that parsed.
\<close>

datatype recv = RecvErr nat | RecvData bytes "int list"

text \<open>
  The system calls the session makes, in order: the write of \<^verbatim>\<open>sendMsg\<close> on the
  socket, the close of the socket, the write of a payload to a received descriptor and
  the close of a received descriptor.
\<close>

datatype event =
    SockWrite int bytes
  | SockClose int
  | FdWrite int bytes
  | FdClose int

text \<open>
  The world: the results the kernel will give (\<open>sock_res\<close> for \<^verbatim>\<open>syscall.Socket\<close>,
  \<open>conn_res\<close> for \<^verbatim>\<open>syscall.Connect\<close> on the runtime directory and display name,
  \<open>recvq\<close> for the successive \<^verbatim>\<open>Recvmsg\<close> calls, \<open>wres\<close> for the \<open>k\<close>-th write on
  the socket) and the trace of the calls made so far.  A \<^verbatim>\<open>Recvmsg\<close> on an
  exhausted \<open>recvq\<close> blocks for ever.
\<close>

record world =
  sock_res :: "nat + int"
  conn_res :: "bytes \<Rightarrow> bytes \<Rightarrow> nat option"
  recvq :: "recv list"
  wres :: "nat \<Rightarrow> nat option"
  trace :: "event list"

definition emit :: "world \<Rightarrow> event list \<Rightarrow> world" where
  "emit w es = w\<lparr>trace := trace w @ es\<rparr>"

fun is_sock_write :: "event \<Rightarrow> bool" where
  "is_sock_write (SockWrite s b) = True"
| "is_sock_write e = False"

definition newConn :: "bytes \<Rightarrow> bytes \<Rightarrow> world \<Rightarrow> (nat + waylandConn) \<times> world" where
  "newConn runtime display w =
     (case sock_res w of
        Inl e \<Rightarrow> (Inl e, w)
      | Inr s \<Rightarrow>
          (case conn_res w runtime display of
             Some e \<Rightarrow> (Inl e, emit w [SockClose s])
           | None \<Rightarrow> (Inr \<lparr>fd = s, inBuf = [], pendingFds = []\<rparr>, w)))"

definition close :: "waylandConn \<Rightarrow> world \<Rightarrow> world" where
  "close c w = emit w [SockClose (fd c)]"

subsection \<open>Sending a request\<close>

datatype sres = SOk | SErr nat | SPanic

text \<open>
  \<^verbatim>\<open>sendMsg\<close>: the size is truncated to 16 bits; a buffer of fewer than 8 bytes
  makes the header writes panic; \<^verbatim>\<open>copy\<close> fills what is left of the buffer.
\<close>

definition sendMsg :: "waylandConn \<Rightarrow> world \<Rightarrow> u32 \<Rightarrow> u16 \<Rightarrow> bytes \<Rightarrow> sres \<times> world" where
  "sendMsg c w objectID opcode args =
     (let size = (of_nat (8 + length args) :: u16)
      in if unat size < 8 then (SPanic, w)
         else
           let buf = le_PutUint32 objectID
                     @ le_PutUint32 (ucast opcode OR push_bit 16 (ucast size))
                     @ take (unat size - 8) args
           in (case wres w (length (filter is_sock_write (trace w))) of
                 None \<Rightarrow> SOk
               | Some e \<Rightarrow> SErr e,
               emit w [SockWrite (fd c) buf]))"

subsection \<open>Reading an event\<close>

datatype rres = RMsg u32 u16 bytes int | RErr error | RBlocked

text \<open>
  \<^verbatim>\<open>readMsg\<close>: a complete message in the buffer is sliced off and the oldest
  queued descriptor attached to it (\<open>-1\<close> when none is queued); otherwise one
  \<^verbatim>\<open>Recvmsg\<close> is made and the loop goes round.
\<close>

text \<open>The header word \<^verbatim>\<open>le.Uint32(c.inBuf[4:8])\<close> and the size in its upper half.\<close>

definition sizeOpcodeOf :: "bytes \<Rightarrow> u32" where
  "sizeOpcodeOf b = le_Uint32 (take 4 (drop 4 b))"

definition sizeOf :: "bytes \<Rightarrow> nat" where
  "sizeOf b = unat (drop_bit 16 (sizeOpcodeOf b))"

function readMsg :: "waylandConn \<Rightarrow> world \<Rightarrow> rres \<times> waylandConn \<times> world" where
  "readMsg c w =
     (if 8 \<le> length (inBuf c) \<and> 8 \<le> sizeOf (inBuf c) \<and> sizeOf (inBuf c) \<le> length (inBuf c)
      then
        (let sizeOpcode = sizeOpcodeOf (inBuf c);
             size = sizeOf (inBuf c)
         in (RMsg (le_Uint32 (take 4 (inBuf c))) (ucast (sizeOpcode AND 0xffff))
                  (take (size - 8) (drop 8 (inBuf c)))
                  (case pendingFds c of [] \<Rightarrow> -1 | d # ds \<Rightarrow> d),
             c\<lparr>inBuf := drop size (inBuf c),
               pendingFds := (case pendingFds c of [] \<Rightarrow> [] | d # ds \<Rightarrow> ds)\<rparr>,
             w))
      else
        (case recvq w of
           [] \<Rightarrow> (RBlocked, c, w)
         | RecvErr e # q \<Rightarrow> (RErr (ErrSys e), c, w\<lparr>recvq := q\<rparr>)
         | RecvData buf rights # q \<Rightarrow>
             if buf = [] then (RErr ErrClosed, c, w\<lparr>recvq := q\<rparr>)
             else readMsg (c\<lparr>inBuf := inBuf c @ buf, pendingFds := pendingFds c @ rights\<rparr>)
                          (w\<lparr>recvq := q\<rparr>)))"
  by pat_completeness auto
termination
  by (relation "measure (\<lambda>(c, w). length (recvq w))") auto

declare readMsg.simps [simp del]

lemma readMsg_decreases:
  "readMsg c w = (RMsg objectID opcode payload d, c', w') \<Longrightarrow>
     length (recvq w') < length (recvq w)
     \<or> (length (recvq w') = length (recvq w) \<and> length (inBuf c') < length (inBuf c))"
proof (induction c w rule: readMsg.induct)
  case (1 c w)
  show ?case
  proof (cases "8 \<le> length (inBuf c) \<and> 8 \<le> sizeOf (inBuf c) \<and> sizeOf (inBuf c) \<le> length (inBuf c)")
    case True
    with "1.prems" show ?thesis
      by (subst (asm) readMsg.simps) (auto simp: Let_def)
  next
    case False
    with "1.prems" obtain buf rights q where
      q: "recvq w = RecvData buf rights # q" and ne: "buf \<noteq> []" and
      r: "readMsg (c\<lparr>inBuf := inBuf c @ buf, pendingFds := pendingFds c @ rights\<rparr>)
                  (w\<lparr>recvq := q\<rparr>) = (RMsg objectID opcode payload d, c', w')"
      by (subst (asm) readMsg.simps) (auto split: list.splits recv.splits if_splits)
    from "1.IH"[OF False q refl ne r] q show ?thesis
      by auto
  qed
qed

subsection \<open>The session\<close>

datatype outcome = Returned "error option" | Panicked | Blocked

text \<open>\<^verbatim>\<open>if err := c.sendMsg(...); err != nil { return err }\<close>, then the rest.\<close>

definition andThen :: "sres \<times> world \<Rightarrow> (world \<Rightarrow> outcome \<times> world) \<Rightarrow> outcome \<times> world" where
  "andThen r k =
     (case r of
        (SOk, w) \<Rightarrow> k w
      | (SErr e, w) \<Rightarrow> (Returned (Some (ErrSys e)), w)
      | (SPanic, w) \<Rightarrow> (Panicked, w))"

text \<open>\<^verbatim>\<open>if fd >= 0 { syscall.Close(fd) }\<close>\<close>

definition closeIfFd :: "int \<Rightarrow> world \<Rightarrow> world" where
  "closeIfFd d w = (if 0 \<le> d then emit w [FdClose d] else w)"

record globals =
  seatName :: u32
  dcManagerName :: u32
  seatFound :: bool
  dcManagerFound :: bool

definition wl_seat :: bytes where
  "wl_seat = bytes_of ''wl_seat''"

definition zwlr_data_control_manager_v1 :: bytes where
  "zwlr_data_control_manager_v1 = bytes_of ''zwlr_data_control_manager_v1''"

text \<open>The body of the \<^verbatim>\<open>global\<close> case of the first loop.\<close>

definition onGlobal :: "globals \<Rightarrow> bytes \<Rightarrow> globals" where
  "onGlobal g payload =
     (if length payload < 4 then g
      else
        let name = le_Uint32 (take 4 payload);
            (iface, rest, decErr) = decodeString (drop 4 payload)
        in if decErr \<noteq> None then g
           else if iface = wl_seat then g\<lparr>seatName := name, seatFound := True\<rparr>
           else if iface = zwlr_data_control_manager_v1
             then g\<lparr>dcManagerName := name, dcManagerFound := True\<rparr>
           else g)"

datatype 'a lres = LDone 'a | LErr error | LBlocked

text \<open>Step 3: collect globals until the first callback is done.\<close>

function collectGlobals :: "waylandConn \<Rightarrow> world \<Rightarrow> globals \<Rightarrow> globals lres \<times> waylandConn \<times> world" where
  "collectGlobals c w g =
     (case readMsg c w of
        (RBlocked, c', w') \<Rightarrow> (LBlocked, c', w')
      | (RErr e, c', w') \<Rightarrow> (LErr e, c', w')
      | (RMsg objectID opcode payload d, c', w') \<Rightarrow>
          if objectID = idRegistry \<and> opcode = 0
            then collectGlobals c' (closeIfFd d w') (onGlobal g payload)
          else if objectID = idCallback1 \<and> opcode = 0
            then (LDone g, c', closeIfFd d w')
          else collectGlobals c' (closeIfFd d w') g)"
  by pat_completeness auto
termination
proof (relation "measures [\<lambda>(c, w, g). length (recvq w), \<lambda>(c, w, g). length (inBuf c)]")
  show "wf (measures [\<lambda>(c, w, g). length (recvq w), \<lambda>(c, w, g). length (inBuf c)])"
    by simp
qed (auto simp: closeIfFd_def emit_def dest!: readMsg_decreases [OF sym])

declare collectGlobals.simps [simp del]

text \<open>Step 10: wait for the second callback.\<close>

function awaitCallback2 :: "waylandConn \<Rightarrow> world \<Rightarrow> unit lres \<times> waylandConn \<times> world" where
  "awaitCallback2 c w =
     (case readMsg c w of
        (RBlocked, c', w') \<Rightarrow> (LBlocked, c', w')
      | (RErr e, c', w') \<Rightarrow> (LErr e, c', w')
      | (RMsg objectID opcode payload d, c', w') \<Rightarrow>
          if objectID = idCallback2 \<and> opcode = 0
            then (LDone (), c', closeIfFd d w')
          else awaitCallback2 c' (closeIfFd d w'))"
  by pat_completeness auto
termination
proof (relation "measures [\<lambda>(c, w). length (recvq w), \<lambda>(c, w). length (inBuf c)]")
  show "wf (measures [\<lambda>(c, w). length (recvq w), \<lambda>(c, w). length (inBuf c)])"
    by simp
qed (auto simp: closeIfFd_def emit_def dest!: readMsg_decreases [OF sym])

declare awaitCallback2.simps [simp del]

text \<open>
  Step 11: the event loop.  The offer table is an association list in the order in which
  \<^verbatim>\<open>range formats\<close> visits it; a lookup is \<open>map_of\<close>.
\<close>

type_synonym formats = "(bytes \<times> bytes) list"

function serveLoop :: "formats \<Rightarrow> waylandConn \<Rightarrow> world \<Rightarrow> outcome \<times> world" where
  "serveLoop formats c w =
     (case readMsg c w of
        (RBlocked, c', w') \<Rightarrow> (Blocked, w')
      | (RErr e, c', w') \<Rightarrow> (Returned None, w')
      | (RMsg objectID opcode payload d, c', w') \<Rightarrow>
          if objectID \<noteq> idDCSource then serveLoop formats c' (closeIfFd d w')
          else if opcode = 0 then
            (let (mimeType, rest, decErr) = decodeString payload
             in serveLoop formats c'
                  (if 0 \<le> d
                   then emit w' ((case map_of formats mimeType of
                                    Some data \<Rightarrow> [FdWrite d data]
                                  | None \<Rightarrow> []) @ [FdClose d])
                   else w'))
          else if opcode = 1 then (Returned None, w')
          else serveLoop formats c' w')"
  by pat_completeness auto
termination
proof (relation "measures [\<lambda>(f, c, w). length (recvq w), \<lambda>(f, c, w). length (inBuf c)]")
  show "wf (measures [\<lambda>(f, c, w). length (recvq w), \<lambda>(f, c, w). length (inBuf c)])"
    by simp
qed (auto simp: closeIfFd_def emit_def dest!: readMsg_decreases [OF sym])

declare serveLoop.simps [simp del]

text \<open>Step 7: one \<^verbatim>\<open>offer\<close> request for each key of the table.\<close>

fun sendOffers :: "waylandConn \<Rightarrow> world \<Rightarrow> formats \<Rightarrow> sres \<times> world" where
  "sendOffers c w [] = (SOk, w)"
| "sendOffers c w ((mimeType, dat) # rest) =
     (case sendMsg c w idDCSource 0 (encodeString mimeType) of
        (SOk, w') \<Rightarrow> sendOffers c w' rest
      | r \<Rightarrow> r)"

text \<open>Steps 6 to 11: create the source, offer, claim the selection, confirm, serve.\<close>

definition afterBind :: "formats \<Rightarrow> waylandConn \<Rightarrow> world \<Rightarrow> outcome \<times> world" where
  "afterBind formats c w =
     andThen (sendMsg c w idDCManager 0 (encodeUint32 idDCSource)) (\<lambda>w.
     andThen (sendOffers c w formats) (\<lambda>w.
     andThen (sendMsg c w idDCManager 1
                (concat [encodeUint32 idDCDevice, encodeUint32 idSeat])) (\<lambda>w.
     andThen (sendMsg c w idDCDevice 0 (encodeUint32 idDCSource)) (\<lambda>w.
     andThen (sendMsg c w idDisplay 0 (encodeUint32 idCallback2)) (\<lambda>w.
     (case awaitCallback2 c w of
        (LBlocked, c', w') \<Rightarrow> (Blocked, w')
      | (LErr e, c', w') \<Rightarrow> (Returned (Some e), w')
      | (LDone u, c', w') \<Rightarrow> serveLoop formats c' w'))))))"

text \<open>From the label \<^verbatim>\<open>afterFirstSync\<close>: the two checks, steps 4 and 5 (the binds),
  then the rest.\<close>

definition afterFirstSync :: "formats \<Rightarrow> waylandConn \<Rightarrow> world \<Rightarrow> globals \<Rightarrow> outcome \<times> world" where
  "afterFirstSync formats c w g =
     (if \<not> seatFound g then (Returned (Some ErrSeatNotFound), w)
      else if \<not> dcManagerFound g then (Returned (Some ErrDCManagerNotFound), w)
      else
        andThen (sendMsg c w idRegistry 0
                   (concat [encodeUint32 (seatName g), encodeString wl_seat,
                            encodeUint32 1, encodeUint32 idSeat])) (\<lambda>w.
        andThen (sendMsg c w idRegistry 0
                   (concat [encodeUint32 (dcManagerName g),
                            encodeString zwlr_data_control_manager_v1,
                            encodeUint32 2, encodeUint32 idDCManager])) (\<lambda>w.
        afterBind formats c w)))"

text \<open>Steps 1 to 3 on an open connection, then the rest.\<close>

definition session :: "formats \<Rightarrow> waylandConn \<Rightarrow> world \<Rightarrow> outcome \<times> world" where
  "session formats c w =
     andThen (sendMsg c w idDisplay 1 (encodeUint32 idRegistry)) (\<lambda>w.
     andThen (sendMsg c w idDisplay 0 (encodeUint32 idCallback1)) (\<lambda>w.
     (case collectGlobals c w
             \<lparr>seatName = 0, dcManagerName = 0, seatFound = False, dcManagerFound = False\<rparr> of
        (LBlocked, c', w') \<Rightarrow> (Blocked, w')
      | (LErr e, c', w') \<Rightarrow> (Returned (Some e), w')
      | (LDone g, c', w') \<Rightarrow> afterFirstSync formats c' w' g)))"

text \<open>
  The environment: \<^verbatim>\<open>os.Getenv\<close> gives the empty string for a variable that is
  not set.
\<close>

type_synonym env = "string \<rightharpoonup> bytes"

definition os_Getenv :: "env \<Rightarrow> string \<Rightarrow> bytes" where
  "os_Getenv env k = (case env k of None \<Rightarrow> [] | Some v \<Rightarrow> v)"

text \<open>\<^verbatim>\<open>defer c.close()\<close> runs when \<^verbatim>\<open>Serve\<close> returns or panics, not while it
  is blocked.\<close>

definition deferred_close :: "waylandConn \<Rightarrow> outcome \<times> world \<Rightarrow> outcome \<times> world" where
  "deferred_close c r =
     (case r of
        (Blocked, w) \<Rightarrow> (Blocked, w)
      | (out, w) \<Rightarrow> (out, close c w))"

definition Serve :: "env \<Rightarrow> formats \<Rightarrow> world \<Rightarrow> outcome \<times> world" where
  "Serve env formats w =
     (let runtime = os_Getenv env ''XDG_RUNTIME_DIR'';
          display0 = os_Getenv env ''WAYLAND_DISPLAY'';
          display = (if display0 = [] then bytes_of ''wayland-0'' else display0)
      in if runtime = [] then (Returned (Some ErrNoRuntimeDir), w)
         else
           (case newConn runtime display w of
              (Inl e, w') \<Rightarrow> (Returned (Some (ErrConnect e)), w')
            | (Inr c, w') \<Rightarrow> deferred_close c (session formats c w')))"

subsection \<open>The launcher\<close>

text \<open>
  The collaborators of the launcher that are not code of this repository: the clipboard
  library's \<^verbatim>\<open>WriteAll\<close>, \<^verbatim>\<open>json.Marshal\<close>, the name of the executable and
  \<^verbatim>\<open>cmd.Start\<close> (arguments, standard input, \<^verbatim>\<open>Setsid\<close>).
\<close>

record host =
  atotto_WriteAll :: "bytes \<Rightarrow> nat option"
  json_Marshal :: "bytes \<Rightarrow> bytes \<Rightarrow> nat + bytes"
  os_Args0 :: bytes
  cmd_Start :: "bytes list \<Rightarrow> bytes \<Rightarrow> bool \<Rightarrow> nat option"

datatype launch = CallWriteAll bytes | CallStart "bytes list" bytes bool

definition spawnClipboardServer :: "host \<Rightarrow> bytes \<Rightarrow> bytes \<Rightarrow> nat option \<times> launch list" where
  "spawnClipboardServer h html plain =
     (case json_Marshal h html plain of
        Inl e \<Rightarrow> (Some e, [])
      | Inr payload \<Rightarrow>
          (let argv = [os_Args0 h, bytes_of ''__clipboard-serve'']
           in (cmd_Start h argv payload True, [CallStart argv payload True])))"

definition WriteMultiFormat :: "env \<Rightarrow> host \<Rightarrow> bytes \<Rightarrow> bytes \<Rightarrow> nat option \<times> launch list" where
  "WriteMultiFormat env h html plain =
     (if os_Getenv env ''WAYLAND_DISPLAY'' = []
      then (atotto_WriteAll h plain, [CallWriteAll plain])
      else spawnClipboardServer h html plain)"

text \<open>
  \<^verbatim>\<open>ServeClipboard\<close> builds the offer table as a Go map, and \<^verbatim>\<open>Serve\<close> ranges over
  it in an order the language does not fix.  \<open>clipboardFormats\<close> is the map;
  \<open>ServeClipboard\<close> is the set of what \<^verbatim>\<open>Serve\<close> can do, one result for each list
  that holds every entry of the map once.
\<close>

definition clipboardFormats :: "bytes \<Rightarrow> bytes \<Rightarrow> (bytes \<rightharpoonup> bytes)" where
  "clipboardFormats html plain =
     map_of
       [(bytes_of ''text/html'', html),
        (bytes_of ''text/plain;charset=utf-8'', plain),
        (bytes_of ''text/plain'', plain),
        (bytes_of ''UTF8_STRING'', plain),
        (bytes_of ''STRING'', plain)]"

definition ServeClipboard :: "env \<Rightarrow> bytes \<Rightarrow> bytes \<Rightarrow> world \<Rightarrow> (outcome \<times> world) set" where
  "ServeClipboard env html plain w =
     {Serve env formats w | formats.
        distinct (map fst formats) \<and> map_of formats = clipboardFormats html plain}"

section \<open>Scripted peers\<close>

text \<open>
  The definitions of this section are not code of the client.  They describe what a
  compositor sends and what the client is seen to do, for the statements that follow.
\<close>

subsection \<open>Messages and streams\<close>

text \<open>
  A message on the wire is the 8-byte header (object ID, then opcode and total size in one
  little-endian word) followed by its payload; \<open>sendMsg\<close> builds the same bytes for a
  request.  A message is well formed when its size fits the 16-bit size field.
\<close>

definition frame :: "u32 \<Rightarrow> u16 \<Rightarrow> bytes \<Rightarrow> bytes" where
  "frame objectID opcode payload =
     le_PutUint32 objectID
     @ le_PutUint32 (ucast opcode OR push_bit 16 (ucast (of_nat (8 + length payload) :: u16)))
     @ payload"

type_synonym msg = "u32 \<times> u16 \<times> bytes"

definition wf_msg :: "msg \<Rightarrow> bool" where
  "wf_msg m = (case m of (oid, op, p) \<Rightarrow> 8 + length p < 65536)"

definition frames :: "msg list \<Rightarrow> bytes" where
  "frames ms = concat (map (\<lambda>(oid, op, p). frame oid op p) ms)"

text \<open>
  The bytes of a stream reach the client cut into chunks, one for each receive, each with
  the descriptors that came with it.  \<open>feeds buf q bs rq\<close>: with \<open>buf\<close> already
  buffered and \<open>q\<close> the results of the receives to come, the client will see the bytes
  \<open>bs\<close>, in non-empty chunks cut anywhere, and after them the receive results \<open>rq\<close>.
\<close>

definition chunks :: "(bytes \<times> int list) list \<Rightarrow> recv list" where
  "chunks cs = map (\<lambda>(b, r). RecvData b r) cs"

definition feeds :: "bytes \<Rightarrow> recv list \<Rightarrow> bytes \<Rightarrow> recv list \<Rightarrow> bool" where
  "feeds buf q bs rq \<longleftrightarrow>
     (\<exists>cs. (\<forall>x\<in>set cs. fst x \<noteq> []) \<and> buf @ concat (map fst cs) = bs \<and> q = chunks cs @ rq)"

subsection \<open>Events of the protocol\<close>

text \<open>
  The \<^verbatim>\<open>done\<close> event of a callback, the \<^verbatim>\<open>cancelled\<close> event of the data source, and
  a \<^verbatim>\<open>global\<close> event of the registry as a compositor encodes it: name, interface,
  version.
\<close>

definition done_on :: "u32 \<Rightarrow> msg \<Rightarrow> bool" where
  "done_on cb m = (case m of (oid, op, p) \<Rightarrow> oid = cb \<and> op = 0)"

definition cancelled :: "msg \<Rightarrow> bool" where
  "cancelled m = (case m of (oid, op, p) \<Rightarrow> oid = idDCSource \<and> op = 1)"

definition global_event :: "u32 \<Rightarrow> bytes \<Rightarrow> u32 \<Rightarrow> msg" where
  "global_event name iface version =
     (idRegistry, 0, encodeUint32 name @ encodeString iface @ encodeUint32 version)"

text \<open>
  What the first loop takes as an advertisement of an interface: an event of opcode 0 on
  the registry whose payload has a name and a string that decodes to the interface.  Every
  \<open>global_event\<close> of the interface is one (lemma \<open>advertises_global_event\<close>).
  \<open>lastAdv\<close> is the name of the last advertisement of an interface in a list of events,
  \<open>bootStep\<close> what one event that is not the awaited \<^verbatim>\<open>done\<close> does to the globals
  collected so far, \<open>g0\<close> the globals at the start.
\<close>

definition advertises :: "bytes \<Rightarrow> msg \<Rightarrow> bool" where
  "advertises iface m =
     (case m of (oid, op, p) \<Rightarrow>
        oid = idRegistry \<and> op = 0 \<and> 4 \<le> length p
        \<and> (case decodeString (drop 4 p) of (i, rest, e) \<Rightarrow> e = None \<and> i = iface))"

definition adv_name :: "msg \<Rightarrow> u32" where
  "adv_name m = (case m of (oid, op, p) \<Rightarrow> le_Uint32 (take 4 p))"

definition lastAdv :: "bytes \<Rightarrow> msg list \<Rightarrow> u32 option" where
  "lastAdv iface ms =
     (if filter (advertises iface) ms = [] then None
      else Some (adv_name (last (filter (advertises iface) ms))))"

definition bootStep :: "globals \<Rightarrow> msg \<Rightarrow> globals" where
  "bootStep g m = (case m of (oid, op, p) \<Rightarrow> if oid = idRegistry \<and> op = 0 then onGlobal g p else g)"

definition g0 :: globals where
  "g0 = \<lparr>seatName = 0, dcManagerName = 0, seatFound = False, dcManagerFound = False\<rparr>"

subsection \<open>What the client is seen to do\<close>

text \<open>
  The calls on the socket in a trace, and among them the bind requests: a write whose
  header names the registry and opcode 0.
\<close>

fun is_sock :: "event \<Rightarrow> bool" where
  "is_sock (SockWrite s b) = True"
| "is_sock (SockClose s) = True"
| "is_sock e = False"

definition sock_trace :: "world \<Rightarrow> event list" where
  "sock_trace w = filter is_sock (trace w)"

fun is_bind :: "event \<Rightarrow> bool" where
  "is_bind (SockWrite s b) =
     (le_Uint32 (take 4 b) = idRegistry \<and> ucast (sizeOpcodeOf b AND 0xffff) = (0 :: u16))"
| "is_bind e = False"

definition binds :: "world \<Rightarrow> event list" where
  "binds w = filter is_bind (trace w)"

text \<open>\<open>quiet_ext w w'\<close>: from \<open>w\<close> to \<open>w'\<close> nothing was done on the socket.\<close>

definition quiet_ext :: "world \<Rightarrow> world \<Rightarrow> bool" where
  "quiet_ext w w' \<longleftrightarrow>
     wres w' = wres w \<and> (\<exists>es. trace w' = trace w @ es \<and> (\<forall>e\<in>set es. \<not> is_sock e))"

text \<open>The requests of \<^verbatim>\<open>Serve\<close>, in the order of its steps, on socket \<open>s\<close>.\<close>

definition first_requests :: "int \<Rightarrow> event list" where
  "first_requests s =
     [SockWrite s (frame idDisplay 1 (encodeUint32 idRegistry)),
      SockWrite s (frame idDisplay 0 (encodeUint32 idCallback1))]"

definition bind_requests :: "int \<Rightarrow> u32 \<Rightarrow> u32 \<Rightarrow> event list" where
  "bind_requests s a b =
     [SockWrite s (frame idRegistry 0
        (concat [encodeUint32 a, encodeString wl_seat, encodeUint32 1, encodeUint32 idSeat])),
      SockWrite s (frame idRegistry 0
        (concat [encodeUint32 b, encodeString zwlr_data_control_manager_v1,
                 encodeUint32 2, encodeUint32 idDCManager]))]"

definition offer_requests :: "int \<Rightarrow> formats \<Rightarrow> event list" where
  "offer_requests s formats =
     map (\<lambda>x. SockWrite s (frame idDCSource 0 (encodeString (fst x)))) formats"

definition source_requests :: "int \<Rightarrow> formats \<Rightarrow> event list" where
  "source_requests s formats =
     SockWrite s (frame idDCManager 0 (encodeUint32 idDCSource))
     # offer_requests s formats
     @ [SockWrite s (frame idDCManager 1 (concat [encodeUint32 idDCDevice, encodeUint32 idSeat])),
        SockWrite s (frame idDCDevice 0 (encodeUint32 idDCSource)),
        SockWrite s (frame idDisplay 0 (encodeUint32 idCallback2))]"

subsection \<open>Sessions that start\<close>

text \<open>
  \<open>writes_ok\<close>: no write on the socket fails.  \<open>mimes_ok\<close>: every offer fits a
  message.  \<open>connects env w s\<close>: the runtime directory is set, the socket opens as
  descriptor \<open>s\<close> and connects, no write on it fails, and nothing has been done yet.
\<close>

definition writes_ok :: "world \<Rightarrow> bool" where
  "writes_ok w \<longleftrightarrow> (\<forall>k. wres w k = None)"

definition mimes_ok :: "formats \<Rightarrow> bool" where
  "mimes_ok formats \<longleftrightarrow> (\<forall>x\<in>set formats. 8 + length (encodeString (fst x)) < 65536)"

definition connects :: "env \<Rightarrow> world \<Rightarrow> int \<Rightarrow> bool" where
  "connects env w s \<longleftrightarrow>
     os_Getenv env ''XDG_RUNTIME_DIR'' \<noteq> []
     \<and> sock_res w = Inr s
     \<and> conn_res w (os_Getenv env ''XDG_RUNTIME_DIR'')
          (if os_Getenv env ''WAYLAND_DISPLAY'' = [] then bytes_of ''wayland-0''
           else os_Getenv env ''WAYLAND_DISPLAY'') = None
     \<and> writes_ok w \<and> trace w = []"

text \<open>
  \<open>enters_serving env formats w s tail rq\<close>: the session starts, the peer sends events
  \<open>ms1\<close> that advertise both globals, the \<^verbatim>\<open>done\<close> of the first callback, events \<open>ms2\<close>
  and the \<^verbatim>\<open>done\<close> of the second callback, so that the session is in the Serving state;
  the bytes \<open>tail\<close> and then the receive results \<open>rq\<close> are what comes after.
\<close>

definition enters_serving :: "env \<Rightarrow> formats \<Rightarrow> world \<Rightarrow> int \<Rightarrow> bytes \<Rightarrow> recv list \<Rightarrow> bool" where
  "enters_serving env formats w s tail rq \<longleftrightarrow>
     connects env w s \<and> mimes_ok formats
     \<and> (\<exists>ms1 dp1 ms2 dp2.
           (\<forall>m\<in>set ms1. wf_msg m \<and> \<not> done_on idCallback1 m) \<and> 8 + length dp1 < 65536
         \<and> lastAdv wl_seat ms1 \<noteq> None \<and> lastAdv zwlr_data_control_manager_v1 ms1 \<noteq> None
         \<and> (\<forall>m\<in>set ms2. wf_msg m \<and> \<not> done_on idCallback2 m) \<and> 8 + length dp2 < 65536
         \<and> feeds [] (recvq w)
              (frames ms1 @ frame idCallback1 0 dp1 @ frames ms2 @ frame idCallback2 0 dp2 @ tail)
              rq)"

subsection \<open>An example session\<close>

text \<open>
  A runtime directory, a kernel that gives socket 3 and accepts every write, the offer
  table of the specification's example, and the bytes of a handshake: \<^verbatim>\<open>wl_seat\<close> as
  global 7, the manager as global 9, and the two \<^verbatim>\<open>done\<close> events.
\<close>

definition example_env :: env where
  "example_env = [''XDG_RUNTIME_DIR'' \<mapsto> bytes_of ''/run/user/1000'']"

definition example_world :: "recv list \<Rightarrow> world" where
  "example_world q =
     \<lparr>sock_res = Inr 3, conn_res = (\<lambda>r d. None), recvq = q, wres = (\<lambda>k. None), trace = []\<rparr>"

definition example_formats :: formats where
  "example_formats = [(bytes_of ''text/plain'', bytes_of ''hello'')]"

definition example_handshake :: bytes where
  "example_handshake =
     frames [global_event 7 wl_seat 1, global_event 9 zwlr_data_control_manager_v1 2]
     @ frame idCallback1 0 (encodeUint32 0) @ frame idCallback2 0 (encodeUint32 0)"

section \<open>The wire codec\<close>

lemma and_not_mask_int: "(k::int) AND NOT (mask n) = push_bit n (drop_bit n k)"
  by (rule bit_eqI) (auto simp: bit_simps)

lemma pad4_eq: "pad4 n = (n + 3) div 4 * 4"
proof -
  have m: "(3::int) = mask 2"
    by (simp add: mask_eq_exp_minus_1)
  have "(int n + 3) AND NOT 3 = (int n + 3) div 4 * 4"
    unfolding m and_not_mask_int by (simp add: push_bit_eq_mult drop_bit_eq_div)
  then show ?thesis
    unfolding pad4_def by (simp add: nat_div_distrib nat_mult_distrib nat_add_distrib)
qed

lemma pad4_ge: "n \<le> pad4 n"
  unfolding pad4_eq by arith

lemma le_Uint32_PutUint32: "le_Uint32 (le_PutUint32 v) = v"
  unfolding le_Uint32_def le_PutUint32_def
  apply simp
  apply (rule bit_word_eqI)
  subgoal for n
    apply (cases "n < 8"; cases "n < 16"; cases "n < 24")
           apply (auto simp add: bit_simps)
    done
  done

lemma length_le_PutUint32 [simp]: "length (le_PutUint32 v) = 4"
  by (simp add: le_PutUint32_def)

lemma le_Uint32_take: "le_Uint32 (take 4 (le_PutUint32 v @ xs)) = v"
  by (simp add: le_Uint32_PutUint32)

lemma encodeString_eq:
  "encodeString s =
     le_PutUint32 (of_nat (Suc (length s))) @ s
       @ 0 # replicate (pad4 (Suc (length s)) - Suc (length s)) 0"
  by (simp add: encodeString_def)

lemma encodeString_len_field:
  "le_Uint32 (take 4 (encodeString s)) = of_nat (Suc (length s))"
  unfolding encodeString_eq by (rule le_Uint32_take)

lemma length_encodeString: "length (encodeString s) = 4 + pad4 (Suc (length s))"
  using pad4_ge [of "Suc (length s)"] by (simp add: encodeString_eq)

lemma unat_len32: "n < 2 ^ 32 \<Longrightarrow> unat (of_nat n :: u32) = n"
  by (simp add: unat_of_nat)

lemma decodeString_zero:
  "4 \<le> length data \<Longrightarrow> le_Uint32 (take 4 data) = 0 \<Longrightarrow>
     decodeString data = ([], drop 4 data, None)"
  by (simp add: decodeString_def)

lemma decodeString_encodeString_append:
  assumes "length s + 1 < 2 ^ 32"
  shows "decodeString (encodeString s @ rest) = (s, rest, None)"
proof -
  let ?n = "Suc (length s)"
  let ?e = "encodeString s @ rest"
  let ?body = "s @ 0 # replicate (pad4 ?n - ?n) 0"
  have u: "unat (of_nat ?n :: u32) = ?n"
    using assms by (intro unat_len32) simp
  have lb: "length ?body = pad4 ?n"
    using pad4_ge [of ?n] by simp
  have d: "drop 4 ?e = ?body @ rest"
    by (simp add: encodeString_eq)
  have len: "pad4 ?n \<le> length (drop 4 ?e)"
    unfolding d using lb by simp
  have l4: "\<not> length ?e < 4"
    by (simp add: encodeString_eq)
  have f: "le_Uint32 (take 4 ?e) = of_nat ?n"
    unfolding encodeString_eq by (simp add: le_Uint32_PutUint32)
  have dr: "drop (pad4 ?n) (drop 4 ?e) = rest"
    unfolding d by (metis lb append_eq_conv_conj)
  have tk: "take (?n - 1) (drop 4 ?e) = s"
    unfolding d by simp
  show ?thesis
    unfolding decodeString_def Let_def f u using l4 len dr tk
    by simp
qed

text \<open>
  Claim C3, as amended.  For every string \<open>s\<close> whose length with the terminator fits the
  32-bit length field (fewer than \<open>2 ^ 32 - 1\<close> bytes), \<open>decodeString (encodeString s)\<close>
  is \<open>s\<close>, the empty remaining buffer and no error.  The string may hold NUL bytes: the
  decoder cuts by the length field, not at a terminator.
\<close>

theorem decodeString_encodeString:
  "length s + 1 < 2 ^ 32 \<Longrightarrow> decodeString (encodeString s) = (s, [], None)"
  using decodeString_encodeString_append [of s "[]"] by simp

theorem decodeString_encodeString_witness:
  "decodeString (encodeString (bytes_of ''text/plain'')) = (bytes_of ''text/plain'', [], None)"
  using decodeString_encodeString [of "bytes_of ''text/plain''"]
  by (simp add: bytes_of_def)

text \<open>
  Claim C3 as stated fails where the length wraps: for the NUL-free string of
  \<open>2 ^ 32 - 1\<close> bytes \<^verbatim>\<open>uint32(length)\<close> is 0, and the decoder returns the empty
  string and the whole padded body as the rest.
\<close>

theorem decodeString_encodeString_wraps:
  "decodeString (encodeString (replicate 4294967295 97)) \<noteq> (replicate 4294967295 97, [], None)"
proof
  let ?s = "replicate 4294967295 (97 :: byte)"
  assume a: "decodeString (encodeString ?s) = (?s, [], None)"
  have "le_Uint32 (take 4 (encodeString ?s)) = 0"
    unfolding encodeString_len_field by simp
  then have "decodeString (encodeString ?s) = ([], drop 4 (encodeString ?s), None)"
    by (intro decodeString_zero) (simp_all add: length_encodeString)
  with a have "?s = []"
    by simp
  then have "length ?s = 0"
    by (simp only: list.size)
  then show False
    by simp
qed

text \<open>
  Claim C10, as amended.  For every buffer of at least 4 bytes whose little-endian length
  field is 0, \<open>decodeString\<close> returns the empty string, the buffer without those 4 bytes
  and no error; and \<open>encodeString\<close> writes a length field other than 0 for every string
  of fewer than \<open>2 ^ 32 - 1\<close> bytes.
\<close>

theorem decodeString_length_zero:
  "(4 \<le> length data \<longrightarrow> le_Uint32 (take 4 data) = 0 \<longrightarrow>
      decodeString data = ([], drop 4 data, None))
   \<and> (length s + 1 < 2 ^ 32 \<longrightarrow> le_Uint32 (take 4 (encodeString s)) \<noteq> 0)"
proof (intro conjI impI)
  assume "4 \<le> length data" and "le_Uint32 (take 4 data) = 0"
  then show "decodeString data = ([], drop 4 data, None)"
    by (rule decodeString_zero)
next
  assume b: "length s + 1 < 2 ^ 32"
  then have "unat (of_nat (Suc (length s)) :: u32) = Suc (length s)"
    by (intro unat_len32) simp
  then have "(of_nat (Suc (length s)) :: u32) \<noteq> 0"
    by (metis nat.distinct(1) unat_0)
  then show "le_Uint32 (take 4 (encodeString s)) \<noteq> 0"
    unfolding encodeString_len_field .
qed

theorem decodeString_length_zero_witness:
  "decodeString [0, 0, 0, 0, 1, 2] = ([], [1, 2], None)
   \<and> le_Uint32 (take 4 (encodeString (bytes_of ''ab''))) \<noteq> 0"
  using decodeString_length_zero [of "[0, 0, 0, 0, 1, 2]" "bytes_of ''ab''"]
  by (simp add: le_Uint32_def bytes_of_def)

text \<open>
  The last part of claim C10 as stated fails where the length wraps: for the string of
  \<open>2 ^ 32 - 1\<close> bytes \<open>encodeString\<close> writes the length field 0.
\<close>

theorem encodeString_length_field_wraps:
  "le_Uint32 (take 4 (encodeString (replicate 4294967295 97))) = 0"
  unfolding encodeString_len_field by simp

section \<open>The launcher\<close>

text \<open>
  Claim C5.  When the variable \<^verbatim>\<open>WAYLAND_DISPLAY\<close> is not set, \<open>WriteMultiFormat\<close>
  makes one call, the library's plain-text write with exactly \<open>plain\<close>, and returns what
  that call returns; \<open>html\<close> is not used and no process is started.
\<close>

theorem WriteMultiFormat_fallback:
  "env ''WAYLAND_DISPLAY'' = None \<Longrightarrow>
     WriteMultiFormat env h html plain = (atotto_WriteAll h plain, [CallWriteAll plain])"
  by (simp add: WriteMultiFormat_def os_Getenv_def)

theorem WriteMultiFormat_fallback_witness:
  "WriteMultiFormat Map.empty
     \<lparr>atotto_WriteAll = (\<lambda>p. if p = bytes_of ''hi'' then None else Some 1),
      json_Marshal = (\<lambda>a b. Inr (a @ b)), os_Args0 = bytes_of ''adoctl'',
      cmd_Start = (\<lambda>a p s. None)\<rparr>
     (bytes_of ''<b>hi</b>'') (bytes_of ''hi'')
   = (None, [CallWriteAll (bytes_of ''hi'')])"
  using WriteMultiFormat_fallback [of Map.empty _ "bytes_of ''<b>hi</b>''" "bytes_of ''hi''"]
  by simp

section \<open>Framing\<close>

lemma length_frame [simp]: "length (frame oid op p) = 8 + length p"
  by (simp add: frame_def)

lemma frame_nonempty [simp]: "frame oid op p \<noteq> []"
  by (simp add: frame_def le_PutUint32_def)

lemma header_size: "drop_bit 16 (ucast (op :: u16) OR push_bit 16 (ucast (sz :: u16)) :: u32) = ucast sz"
  apply (rule bit_word_eqI)
  apply (auto simp add: bit_simps dest: bit_imp_le_length)
  done

lemma header_opcode: "ucast ((ucast (op :: u16) OR push_bit 16 (ucast (sz :: u16)) :: u32) AND 0xffff) = op"
proof -
  have m: "(0xffff :: u32) = mask 16" by (simp add: mask_eq_exp_minus_1)
  show ?thesis unfolding m
  apply (rule bit_word_eqI)
  apply (auto simp add: bit_simps dest: bit_imp_le_length)
    done
qed

lemma unat_ucast_16_32: "unat (ucast (x :: u16) :: u32) = unat x"
proof -
  have "unat x < 2 ^ 16"
    using unsigned_less [of x] by simp
  then have "unat x < 2 ^ 32"
    by simp
  then show ?thesis
    by (simp add: unsigned_ucast_eq take_bit_nat_eq_self)
qed

lemma unat_len16: "n < 65536 \<Longrightarrow> unat (of_nat n :: u16) = n"
  by (simp add: unat_of_nat)

lemma sizeOpcodeOf_prefix:
  assumes "take 8 b = take 8 (frame oid op p)"
  shows "sizeOpcodeOf b = ucast op OR push_bit 16 (ucast (of_nat (8 + length p) :: u16))"
proof -
  have "take 4 (drop 4 b) = take 4 (drop 4 (take 8 b))" by (simp add: take_drop)
  also have "\<dots> = take 4 (drop 4 (take 8 (frame oid op p)))" by (simp only: assms)
  also have "\<dots> = le_PutUint32 (ucast op OR push_bit 16 (ucast (of_nat (8 + length p) :: u16)))"
    by (simp add: frame_def)
  finally show ?thesis by (simp add: sizeOpcodeOf_def le_Uint32_PutUint32)
qed

lemma sizeOf_prefix:
  assumes "take 8 b = take 8 (frame oid op p)" "8 + length p < 65536"
  shows "sizeOf b = 8 + length p"
  unfolding sizeOf_def sizeOpcodeOf_prefix[OF assms(1)] header_size unat_ucast_16_32
  using assms(2) by (rule unat_len16)

lemma objectID_prefix:
  assumes "take 8 b = take 8 (frame oid op p)"
  shows "le_Uint32 (take 4 b) = oid"
proof -
  have "take 4 b = take 4 (take 8 b)" by simp
  also have "\<dots> = take 4 (take 8 (frame oid op p))" by (simp only: assms)
  also have "\<dots> = le_PutUint32 oid" by (simp add: frame_def)
  finally show ?thesis by (simp add: le_Uint32_PutUint32)
qed

lemma opcode_prefix:
  assumes "take 8 b = take 8 (frame oid op p)"
  shows "ucast (sizeOpcodeOf b AND 0xffff) = op"
  unfolding sizeOpcodeOf_prefix [OF assms] by (rule header_opcode)

lemma take8_of_stream:
  assumes "buf @ rest = frame oid op p @ tail" "8 \<le> length buf"
  shows "take 8 buf = take 8 (frame oid op p)"
proof -
  have "take 8 buf = take 8 (buf @ rest)" using assms(2) by simp
  also have "\<dots> = take 8 (frame oid op p)" unfolding assms(1) by simp
  finally show ?thesis .
qed

lemma payload_of_stream:
  assumes "buf @ rest = frame oid op p @ tail" "8 + length p \<le> length buf"
  shows "take (length p) (drop 8 buf) = p" "drop (8 + length p) buf @ rest = tail"
proof -
  have t: "take (8 + length p) buf = frame oid op p"
  proof -
    have "take (8 + length p) buf = take (8 + length p) (buf @ rest)" using assms(2) by simp
    also have "\<dots> = frame oid op p" unfolding assms(1) by simp
    finally show ?thesis .
  qed
  have "take (length p) (drop 8 buf) = drop 8 (take (8 + length p) buf)"
    by (simp add: drop_take)
  also have "\<dots> = p" unfolding t by (simp add: frame_def)
  finally show "take (length p) (drop 8 buf) = p" .
  have "drop (8 + length p) buf @ rest = drop (8 + length p) (buf @ rest)"
    using assms(2) by simp
  also have "\<dots> = tail" unfolding assms(1) by simp
  finally show "drop (8 + length p) buf @ rest = tail" .
qed

text \<open>A complete message at the head of the buffer is returned without a receive.\<close>

lemma readMsg_buffered:
  assumes wf: "8 + length p < 65536"
    and buf: "inBuf c @ rest = frame oid op p @ tail"
    and len: "8 + length p \<le> length (inBuf c)"
  shows "readMsg c w =
           (RMsg oid op p (case pendingFds c of [] \<Rightarrow> -1 | d # ds \<Rightarrow> d),
            c\<lparr>inBuf := drop (8 + length p) (inBuf c),
              pendingFds := (case pendingFds c of [] \<Rightarrow> [] | d # ds \<Rightarrow> ds)\<rparr>, w)"
proof -
  have l8: "8 \<le> length (inBuf c)" using len by simp
  note t8 = take8_of_stream [OF buf l8]
  have sz: "sizeOf (inBuf c) = 8 + length p" by (rule sizeOf_prefix [OF t8 wf])
  show ?thesis
    apply (subst readMsg.simps)
    using l8 len
    apply (simp add: sz Let_def objectID_prefix [OF t8] opcode_prefix [OF t8]
        payload_of_stream(1) [OF buf len])
    done
qed

text \<open>An incomplete message makes \<open>readMsg\<close> receive.\<close>

lemma readMsg_incomplete:
  assumes wf: "8 + length p < 65536"
    and buf: "inBuf c @ rest = frame oid op p @ tail"
    and len: "length (inBuf c) < 8 + length p"
  shows "readMsg c w =
           (case recvq w of
              [] \<Rightarrow> (RBlocked, c, w)
            | RecvErr e # q \<Rightarrow> (RErr (ErrSys e), c, w\<lparr>recvq := q\<rparr>)
            | RecvData buf rights # q \<Rightarrow>
                if buf = [] then (RErr ErrClosed, c, w\<lparr>recvq := q\<rparr>)
                else readMsg (c\<lparr>inBuf := inBuf c @ buf, pendingFds := pendingFds c @ rights\<rparr>)
                             (w\<lparr>recvq := q\<rparr>))"
proof -
  have n: "\<not> (8 \<le> length (inBuf c) \<and> 8 \<le> sizeOf (inBuf c) \<and> sizeOf (inBuf c) \<le> length (inBuf c))"
  proof
    assume a: "8 \<le> length (inBuf c) \<and> 8 \<le> sizeOf (inBuf c) \<and> sizeOf (inBuf c) \<le> length (inBuf c)"
    then have l8: "8 \<le> length (inBuf c)" by simp
    have "sizeOf (inBuf c) = 8 + length p"
      by (rule sizeOf_prefix [OF take8_of_stream [OF buf l8] wf])
    with a len show False by simp
  qed
  show ?thesis
    by (subst readMsg.simps, subst if_not_P [OF n], rule refl)
qed

lemma readMsg_drained:
  assumes "inBuf c = []"
  shows "readMsg c w =
           (case recvq w of
              [] \<Rightarrow> (RBlocked, c, w)
            | RecvErr e # q \<Rightarrow> (RErr (ErrSys e), c, w\<lparr>recvq := q\<rparr>)
            | RecvData buf rights # q \<Rightarrow>
                if buf = [] then (RErr ErrClosed, c, w\<lparr>recvq := q\<rparr>)
                else readMsg (c\<lparr>inBuf := inBuf c @ buf, pendingFds := pendingFds c @ rights\<rparr>)
                             (w\<lparr>recvq := q\<rparr>))"
  by (subst readMsg.simps) (simp add: assms)

lemma readMsg_stream:
  assumes wf: "8 + length p < 65536"
  shows "(\<forall>x\<in>set cs. fst x \<noteq> []) \<Longrightarrow>
         inBuf c @ concat (map fst cs) = frame oid op p @ tail \<Longrightarrow>
         recvq w = chunks cs @ rq \<Longrightarrow>
         \<exists>n\<le>length cs.
           readMsg c w =
             (RMsg oid op p
                (case pendingFds c @ concat (map snd (take n cs)) of [] \<Rightarrow> -1 | d # ds \<Rightarrow> d),
              c\<lparr>inBuf := drop (8 + length p) (inBuf c @ concat (map fst (take n cs))),
                pendingFds := (case pendingFds c @ concat (map snd (take n cs)) of
                                 [] \<Rightarrow> [] | d # ds \<Rightarrow> ds)\<rparr>,
              w\<lparr>recvq := chunks (drop n cs) @ rq\<rparr>)
           \<and> drop (8 + length p) (inBuf c @ concat (map fst (take n cs)))
               @ concat (map fst (drop n cs)) = tail"
proof (induction cs arbitrary: c w)
  case Nil
  then have buf: "inBuf c @ [] = frame oid op p @ tail" by simp
  then have len: "8 + length p \<le> length (inBuf c)" by simp
  have w: "w\<lparr>recvq := rq\<rparr> = w" using Nil.prems(3) by (simp add: chunks_def)
  show ?case
    using readMsg_buffered [OF wf buf len, of w] payload_of_stream(2) [OF buf len]
    by (simp add: chunks_def w)
next
  case (Cons x cs)
  obtain b r where x: "x = (b, r)" by (cases x)
  show ?case
  proof (cases "8 + length p \<le> length (inBuf c)")
    case True
    have w: "w\<lparr>recvq := chunks (x # cs) @ rq\<rparr> = w" using Cons.prems(3) by simp
    have "readMsg c w =
             (RMsg oid op p
                (case pendingFds c @ concat (map snd (take 0 (x # cs))) of [] \<Rightarrow> -1 | d # ds \<Rightarrow> d),
              c\<lparr>inBuf := drop (8 + length p) (inBuf c @ concat (map fst (take 0 (x # cs)))),
                pendingFds := (case pendingFds c @ concat (map snd (take 0 (x # cs))) of
                                 [] \<Rightarrow> [] | d # ds \<Rightarrow> ds)\<rparr>,
              w\<lparr>recvq := chunks (drop 0 (x # cs)) @ rq\<rparr>)
           \<and> drop (8 + length p) (inBuf c @ concat (map fst (take 0 (x # cs))))
               @ concat (map fst (drop 0 (x # cs))) = tail"
      using readMsg_buffered [OF wf Cons.prems(2) True, of w]
        payload_of_stream(2) [OF Cons.prems(2) True]
      by (simp add: w)
    then show ?thesis by blast
  next
    case False
    then have len: "length (inBuf c) < 8 + length p" by simp
    let ?c1 = "c\<lparr>inBuf := inBuf c @ b, pendingFds := pendingFds c @ r\<rparr>"
    let ?w1 = "w\<lparr>recvq := chunks cs @ rq\<rparr>"
    have ne: "b \<noteq> []" using Cons.prems(1) x by simp
    have q: "recvq w = RecvData b r # (chunks cs @ rq)"
      using Cons.prems(3) x by (simp add: chunks_def)
    have step: "readMsg c w = readMsg ?c1 ?w1"
      using readMsg_incomplete [OF wf Cons.prems(2) len, of w] ne by (simp add: q)
    have p1: "\<forall>x\<in>set cs. fst x \<noteq> []" using Cons.prems(1) by simp
    have p2: "inBuf ?c1 @ concat (map fst cs) = frame oid op p @ tail"
      using Cons.prems(2) x by simp
    have p3: "recvq ?w1 = chunks cs @ rq" by simp
    from Cons.IH [OF p1 p2 p3] obtain n where n: "n \<le> length cs"
      and r: "readMsg ?c1 ?w1 =
             (RMsg oid op p
                (case pendingFds ?c1 @ concat (map snd (take n cs)) of [] \<Rightarrow> -1 | d # ds \<Rightarrow> d),
              ?c1\<lparr>inBuf := drop (8 + length p) (inBuf ?c1 @ concat (map fst (take n cs))),
                pendingFds := (case pendingFds ?c1 @ concat (map snd (take n cs)) of
                                 [] \<Rightarrow> [] | d # ds \<Rightarrow> ds)\<rparr>,
              ?w1\<lparr>recvq := chunks (drop n cs) @ rq\<rparr>)"
      and t: "drop (8 + length p) (inBuf ?c1 @ concat (map fst (take n cs)))
               @ concat (map fst (drop n cs)) = tail"
      by blast
    have "Suc n \<le> length (x # cs)" using n by simp
    moreover have "readMsg c w =
             (RMsg oid op p
                (case pendingFds c @ concat (map snd (take (Suc n) (x # cs))) of [] \<Rightarrow> -1 | d # ds \<Rightarrow> d),
              c\<lparr>inBuf := drop (8 + length p) (inBuf c @ concat (map fst (take (Suc n) (x # cs)))),
                pendingFds := (case pendingFds c @ concat (map snd (take (Suc n) (x # cs))) of
                                 [] \<Rightarrow> [] | d # ds \<Rightarrow> ds)\<rparr>,
              w\<lparr>recvq := chunks (drop (Suc n) (x # cs)) @ rq\<rparr>)"
      unfolding step r using x by simp
    moreover have "drop (8 + length p) (inBuf c @ concat (map fst (take (Suc n) (x # cs))))
               @ concat (map fst (drop (Suc n) (x # cs))) = tail"
      using t x by simp
    ultimately show ?thesis by blast
  qed
qed

text \<open>
  Claim C4.  Let a message with object ID, opcode and payload be well formed (its size
  fits the 16-bit size field) and let its bytes reach an empty connection cut into any
  sequence of non-empty chunks, one chunk for each successive receive.  Then one
  \<open>readMsg\<close> returns exactly that message, with the first descriptor that came along (or
  \<open>-1\<close>), having consumed every chunk and left the buffer empty; a further \<open>readMsg\<close>
  finds nothing and blocks, so no second message is produced.
\<close>

theorem readMsg_fragmented:
  assumes wf: "8 + length payload < 65536"
    and ne: "\<forall>x\<in>set cs. fst x \<noteq> []"
    and whole: "concat (map fst cs) = frame objectID opcode payload"
    and c: "inBuf c = []" "pendingFds c = []"
    and w: "recvq w = chunks cs"
  shows "readMsg c w =
           (RMsg objectID opcode payload
              (case concat (map snd cs) of [] \<Rightarrow> -1 | d # ds \<Rightarrow> d),
            c\<lparr>pendingFds := (case concat (map snd cs) of [] \<Rightarrow> [] | d # ds \<Rightarrow> ds)\<rparr>,
            w\<lparr>recvq := []\<rparr>)
         \<and> readMsg (c\<lparr>pendingFds := (case concat (map snd cs) of [] \<Rightarrow> [] | d # ds \<Rightarrow> ds)\<rparr>)
               (w\<lparr>recvq := []\<rparr>)
             = (RBlocked,
                c\<lparr>pendingFds := (case concat (map snd cs) of [] \<Rightarrow> [] | d # ds \<Rightarrow> ds)\<rparr>,
                w\<lparr>recvq := []\<rparr>)"
proof -
  have b: "inBuf c @ concat (map fst cs) = frame objectID opcode payload @ []"
    using whole c by simp
  have q: "recvq w = chunks cs @ []" using w by simp
  from readMsg_stream [OF wf ne b q] obtain n where n: "n \<le> length cs"
    and r: "readMsg c w =
             (RMsg objectID opcode payload
                (case pendingFds c @ concat (map snd (take n cs)) of [] \<Rightarrow> -1 | d # ds \<Rightarrow> d),
              c\<lparr>inBuf := drop (8 + length payload) (inBuf c @ concat (map fst (take n cs))),
                pendingFds := (case pendingFds c @ concat (map snd (take n cs)) of
                                 [] \<Rightarrow> [] | d # ds \<Rightarrow> ds)\<rparr>,
              w\<lparr>recvq := chunks (drop n cs) @ []\<rparr>)"
    and t: "drop (8 + length payload) (inBuf c @ concat (map fst (take n cs)))
               @ concat (map fst (drop n cs)) = []"
    by blast
  from t have t1: "drop (8 + length payload) (inBuf c @ concat (map fst (take n cs))) = []"
    and t2: "concat (map fst (drop n cs)) = []" by simp_all
  have "drop n cs = []"
  proof (cases "drop n cs")
    case (Cons x xs)
    then have "x \<in> set cs" by (metis in_set_dropD list.set_intros(1))
    with ne have "fst x \<noteq> []" by simp
    with t2 Cons show ?thesis by simp
  qed simp
  then have all: "take n cs = cs" by simp
  let ?c' = "c\<lparr>pendingFds := (case concat (map snd cs) of [] \<Rightarrow> [] | d # ds \<Rightarrow> ds)\<rparr>"
  have c': "c\<lparr>inBuf := [], pendingFds := (case concat (map snd cs) of [] \<Rightarrow> [] | d # ds \<Rightarrow> ds)\<rparr> = ?c'"
    using c(1) by simp
  have r': "readMsg c w =
           (RMsg objectID opcode payload
              (case concat (map snd cs) of [] \<Rightarrow> -1 | d # ds \<Rightarrow> d), ?c', w\<lparr>recvq := []\<rparr>)"
    using r t1 \<open>drop n cs = []\<close> c' unfolding all by (simp add: c chunks_def)
  have "readMsg ?c' (w\<lparr>recvq := []\<rparr>) = (RBlocked, ?c', w\<lparr>recvq := []\<rparr>)"
    by (subst readMsg_drained) (simp_all add: c)
  with r' show ?thesis by blast
qed

theorem readMsg_fragmented_witness:
  "readMsg \<lparr>fd = 3, inBuf = [], pendingFds = []\<rparr>
     \<lparr>sock_res = Inr 3, conn_res = (\<lambda>r d. None),
      recvq = [RecvData [6, 0, 0] [], RecvData [0, 1, 0, 12] [], RecvData [0, 1] [], RecvData [2, 3, 4] []],
      wres = (\<lambda>k. None), trace = []\<rparr>
   = (RMsg 6 1 [1, 2, 3, 4] (-1), \<lparr>fd = 3, inBuf = [], pendingFds = []\<rparr>,
      \<lparr>sock_res = Inr 3, conn_res = (\<lambda>r d. None), recvq = [], wres = (\<lambda>k. None), trace = []\<rparr>)"
  using readMsg_fragmented [of "[1, 2, 3, 4]" "[([6, 0, 0], []), ([0, 1, 0, 12], []), ([0, 1], []), ([2, 3, 4], [])]" 6 1
     "\<lparr>fd = 3, inBuf = [], pendingFds = []\<rparr>"
     "\<lparr>sock_res = Inr 3, conn_res = (\<lambda>r d. None),
      recvq = [RecvData [6, 0, 0] [], RecvData [0, 1, 0, 12] [], RecvData [0, 1] [], RecvData [2, 3, 4] []],
      wres = (\<lambda>k. None), trace = []\<rparr>"]
  by (simp add: frame_def le_PutUint32_def chunks_def)

section \<open>A peer that follows a script\<close>

subsection \<open>Reading a stream of messages\<close>

lemma frames_Cons [simp]: "frames ((oid, op, p) # ms) = frame oid op p @ frames ms"
  by (simp add: frames_def)

lemma frames_Nil [simp]: "frames [] = []"
  by (simp add: frames_def)

lemma feedsI:
  "\<forall>x\<in>set cs. fst x \<noteq> [] \<Longrightarrow> buf @ concat (map fst cs) = bs \<Longrightarrow> q = chunks cs @ rq \<Longrightarrow>
     feeds buf q bs rq"
  unfolding feeds_def by blast


lemma emit_simps [simp]:
  "recvq (emit w es) = recvq w"
  "wres (emit w es) = wres w"
  "trace (emit w es) = trace w @ es"
  "sock_trace (emit w es) = sock_trace w @ filter is_sock es"
  by (simp_all add: emit_def sock_trace_def)

lemma emit_emit [simp]: "emit (emit w a) b = emit w (a @ b)"
  by (simp add: emit_def)

lemma emit_Nil [simp]: "emit w [] = w"
  by (simp add: emit_def)

lemma sock_trace_cong: "trace w' = trace w \<Longrightarrow> sock_trace w' = sock_trace w"
  by (simp add: sock_trace_def)

lemma closeIfFd_simps [simp]:
  "recvq (closeIfFd d w) = recvq w"
  "wres (closeIfFd d w) = wres w"
  "sock_trace (closeIfFd d w) = sock_trace w"
  by (simp_all add: closeIfFd_def emit_def sock_trace_def)

lemma readMsg_feeds:
  assumes wf: "8 + length p < 65536"
    and f: "feeds (inBuf c) (recvq w) (frame oid op p @ tail) rq"
  shows "\<exists>d c' w'. readMsg c w = (RMsg oid op p d, c', w')
           \<and> feeds (inBuf c') (recvq w') tail rq
           \<and> fd c' = fd c \<and> wres w' = wres w \<and> trace w' = trace w"
proof -
  from f obtain cs where cs: "\<forall>x\<in>set cs. fst x \<noteq> []"
    "inBuf c @ concat (map fst cs) = frame oid op p @ tail" "recvq w = chunks cs @ rq"
    unfolding feeds_def by blast
  from readMsg_stream [OF wf cs] obtain n where n: "n \<le> length cs"
    and r: "readMsg c w =
             (RMsg oid op p
                (case pendingFds c @ concat (map snd (take n cs)) of [] \<Rightarrow> -1 | d # ds \<Rightarrow> d),
              c\<lparr>inBuf := drop (8 + length p) (inBuf c @ concat (map fst (take n cs))),
                pendingFds := (case pendingFds c @ concat (map snd (take n cs)) of
                                 [] \<Rightarrow> [] | d # ds \<Rightarrow> ds)\<rparr>,
              w\<lparr>recvq := chunks (drop n cs) @ rq\<rparr>)"
    and t: "drop (8 + length p) (inBuf c @ concat (map fst (take n cs)))
               @ concat (map fst (drop n cs)) = tail"
    by blast
  have "\<forall>x\<in>set (drop n cs). fst x \<noteq> []"
    using cs(1) by (meson in_set_dropD)
  with t have "feeds (drop (8 + length p) (inBuf c @ concat (map fst (take n cs))))
                 (chunks (drop n cs) @ rq) tail rq"
    unfolding feeds_def by blast
  with r show ?thesis by simp
qed

lemma readMsg_world:
  "readMsg c w = (r, c', w') \<Longrightarrow> trace w' = trace w \<and> wres w' = wres w \<and> fd c' = fd c"
proof (induction c w rule: readMsg.induct)
  case (1 c w)
  show ?case
  proof (cases "8 \<le> length (inBuf c) \<and> 8 \<le> sizeOf (inBuf c) \<and> sizeOf (inBuf c) \<le> length (inBuf c)")
    case True
    with "1.prems" show ?thesis
      by (subst (asm) readMsg.simps) (auto simp: Let_def)
  next
    case False
    show ?thesis
    proof (cases "recvq w")
      case Nil
      with False "1.prems" show ?thesis
        by (subst (asm) readMsg.simps) auto
    next
      case (Cons x q)
      show ?thesis
      proof (cases x)
        case (RecvErr e)
        with False Cons "1.prems" show ?thesis
          by (subst (asm) readMsg.simps) auto
      next
        case (RecvData buf rights)
        show ?thesis
        proof (cases "buf = []")
          case True
          with False Cons RecvData "1.prems" show ?thesis
            by (subst (asm) readMsg.simps) auto
        next
          case ne: False
          from False Cons RecvData ne "1.prems"
          have "readMsg (c\<lparr>inBuf := inBuf c @ buf, pendingFds := pendingFds c @ rights\<rparr>)
                  (w\<lparr>recvq := q\<rparr>) = (r, c', w')"
            by (subst (asm) readMsg.simps) auto
          from "1.IH" [OF False Cons RecvData ne this] show ?thesis
            by simp
        qed
      qed
    qed
  qed
qed

subsection \<open>The three loops\<close>

lemma ids_distinct [simp]: "idRegistry \<noteq> idCallback1" "idCallback1 \<noteq> idRegistry"
  by (simp_all add: idRegistry_def idCallback1_def)

lemma collectGlobals_step:
  "readMsg c w = (RMsg oid op p d, c', w') \<Longrightarrow>
   collectGlobals c w g =
     (if oid = idRegistry \<and> op = 0 then collectGlobals c' (closeIfFd d w') (onGlobal g p)
      else if oid = idCallback1 \<and> op = 0 then (LDone g, c', closeIfFd d w')
      else collectGlobals c' (closeIfFd d w') g)"
  by (subst collectGlobals.simps) simp

lemma collectGlobals_msgs:
  assumes dp: "8 + length dp < 65536"
  shows "\<forall>m\<in>set ms. wf_msg m \<and> \<not> done_on idCallback1 m \<Longrightarrow>
         feeds (inBuf c) (recvq w) (frames ms @ frame idCallback1 0 dp @ tail) rq \<Longrightarrow>
         \<exists>c' w'. collectGlobals c w g = (LDone (foldl bootStep g ms), c', w')
           \<and> feeds (inBuf c') (recvq w') tail rq
           \<and> fd c' = fd c \<and> wres w' = wres w \<and> sock_trace w' = sock_trace w"
proof (induction ms arbitrary: c w g)
  case Nil
  then have f: "feeds (inBuf c) (recvq w) (frame idCallback1 0 dp @ tail) rq" by simp
  from readMsg_feeds [OF dp f] obtain d c' w' where
    r: "readMsg c w = (RMsg idCallback1 0 dp d, c', w')"
    and f': "feeds (inBuf c') (recvq w') tail rq"
    and k: "fd c' = fd c" "wres w' = wres w" "trace w' = trace w"
    by blast
  show ?case
    using f' k sock_trace_cong [OF k(3)] by (simp add: collectGlobals_step [OF r])
next
  case (Cons m ms)
  obtain oid op p where m: "m = (oid, op, p)" by (cases m)
  from Cons.prems(1) m have wf: "8 + length p < 65536" and nd: "\<not> (oid = idCallback1 \<and> op = 0)"
    by (simp_all add: wf_msg_def done_on_def)
  from Cons.prems(2) m
  have f: "feeds (inBuf c) (recvq w) (frame oid op p @ frames ms @ frame idCallback1 0 dp @ tail) rq"
    by simp
  from readMsg_feeds [OF wf f] obtain d c' w' where
    r: "readMsg c w = (RMsg oid op p d, c', w')"
    and f': "feeds (inBuf c') (recvq w') (frames ms @ frame idCallback1 0 dp @ tail) rq"
    and k: "fd c' = fd c" "wres w' = wres w" "trace w' = trace w"
    by blast
  have st: "collectGlobals c w g = collectGlobals c' (closeIfFd d w') (bootStep g m)"
    using nd by (auto simp add: collectGlobals_step [OF r] bootStep_def m)
  have p1: "\<forall>m\<in>set ms. wf_msg m \<and> \<not> done_on idCallback1 m" using Cons.prems(1) by simp
  have p2: "feeds (inBuf c') (recvq (closeIfFd d w')) (frames ms @ frame idCallback1 0 dp @ tail) rq"
    using f' by simp
  from Cons.IH [OF p1 p2, of "bootStep g m"] obtain c'' w'' where
    "collectGlobals c' (closeIfFd d w') (bootStep g m) = (LDone (foldl bootStep (bootStep g m) ms), c'', w'')"
    "feeds (inBuf c'') (recvq w'') tail rq"
    "fd c'' = fd c'" "wres w'' = wres (closeIfFd d w')" "sock_trace w'' = sock_trace (closeIfFd d w')"
    by blast
  then show ?case
    unfolding st using k sock_trace_cong [OF k(3)] by simp
qed

lemma awaitCallback2_step:
  "readMsg c w = (RMsg oid op p d, c', w') \<Longrightarrow>
   awaitCallback2 c w =
     (if oid = idCallback2 \<and> op = 0 then (LDone (), c', closeIfFd d w')
      else awaitCallback2 c' (closeIfFd d w'))"
  by (subst awaitCallback2.simps) simp

lemma awaitCallback2_stop:
  "readMsg c w = (RErr e, c', w') \<Longrightarrow> awaitCallback2 c w = (LErr e, c', w')"
  "readMsg c w = (RBlocked, c', w') \<Longrightarrow> awaitCallback2 c w = (LBlocked, c', w')"
  by (subst awaitCallback2.simps, simp)+

lemma awaitCallback2_msgs:
  assumes dp: "8 + length dp < 65536"
  shows "\<forall>m\<in>set ms. wf_msg m \<and> \<not> done_on idCallback2 m \<Longrightarrow>
         feeds (inBuf c) (recvq w) (frames ms @ frame idCallback2 0 dp @ tail) rq \<Longrightarrow>
         \<exists>c' w'. awaitCallback2 c w = (LDone (), c', w')
           \<and> feeds (inBuf c') (recvq w') tail rq
           \<and> fd c' = fd c \<and> wres w' = wres w \<and> sock_trace w' = sock_trace w"
proof (induction ms arbitrary: c w)
  case Nil
  then have f: "feeds (inBuf c) (recvq w) (frame idCallback2 0 dp @ tail) rq" by simp
  from readMsg_feeds [OF dp f] obtain d c' w' where
    r: "readMsg c w = (RMsg idCallback2 0 dp d, c', w')"
    and f': "feeds (inBuf c') (recvq w') tail rq"
    and k: "fd c' = fd c" "wres w' = wres w" "trace w' = trace w"
    by blast
  show ?case
    using f' k sock_trace_cong [OF k(3)] by (simp add: awaitCallback2_step [OF r])
next
  case (Cons m ms)
  obtain oid op p where m: "m = (oid, op, p)" by (cases m)
  from Cons.prems(1) m have wf: "8 + length p < 65536" and nd: "\<not> (oid = idCallback2 \<and> op = 0)"
    by (simp_all add: wf_msg_def done_on_def)
  from Cons.prems(2) m
  have f: "feeds (inBuf c) (recvq w) (frame oid op p @ frames ms @ frame idCallback2 0 dp @ tail) rq"
    by simp
  from readMsg_feeds [OF wf f] obtain d c' w' where
    r: "readMsg c w = (RMsg oid op p d, c', w')"
    and f': "feeds (inBuf c') (recvq w') (frames ms @ frame idCallback2 0 dp @ tail) rq"
    and k: "fd c' = fd c" "wres w' = wres w" "trace w' = trace w"
    by blast
  have st: "awaitCallback2 c w = awaitCallback2 c' (closeIfFd d w')"
    using nd by (auto simp add: awaitCallback2_step [OF r])
  have p1: "\<forall>m\<in>set ms. wf_msg m \<and> \<not> done_on idCallback2 m" using Cons.prems(1) by simp
  have p2: "feeds (inBuf c') (recvq (closeIfFd d w')) (frames ms @ frame idCallback2 0 dp @ tail) rq"
    using f' by simp
  from Cons.IH [OF p1 p2] obtain c'' w'' where
    "awaitCallback2 c' (closeIfFd d w') = (LDone (), c'', w'')"
    "feeds (inBuf c'') (recvq w'') tail rq"
    "fd c'' = fd c'" "wres w'' = wres (closeIfFd d w')" "sock_trace w'' = sock_trace (closeIfFd d w')"
    by blast
  then show ?case
    unfolding st using k sock_trace_cong [OF k(3)] by simp
qed

lemma serveLoop_step:
  "readMsg c w = (RMsg oid op p d, c', w') \<Longrightarrow>
   serveLoop formats c w =
     (if oid \<noteq> idDCSource then serveLoop formats c' (closeIfFd d w')
      else if op = 0 then
        serveLoop formats c'
          (if 0 \<le> d
           then emit w' ((case map_of formats (fst (decodeString p)) of
                            Some data \<Rightarrow> [FdWrite d data]
                          | None \<Rightarrow> []) @ [FdClose d])
           else w')
      else if op = 1 then (Returned None, w')
      else serveLoop formats c' w')"
  by (subst serveLoop.simps) (simp add: split_beta)

lemma serveLoop_stop:
  "readMsg c w = (RErr e, c', w') \<Longrightarrow> serveLoop formats c w = (Returned None, w')"
  "readMsg c w = (RBlocked, c', w') \<Longrightarrow> serveLoop formats c w = (Blocked, w')"
  by (subst serveLoop.simps, simp)+

lemma serveLoop_cancelled:
  "readMsg c w = (RMsg idDCSource 1 p d, c', w') \<Longrightarrow> serveLoop formats c w = (Returned None, w')"
  by (simp add: serveLoop_step)

lemma serveLoop_msgs:
  "\<forall>m\<in>set ms. wf_msg m \<and> \<not> cancelled m \<Longrightarrow>
   feeds (inBuf c) (recvq w) (frames ms @ tail) rq \<Longrightarrow>
   \<exists>c' w'. serveLoop formats c w = serveLoop formats c' w'
     \<and> feeds (inBuf c') (recvq w') tail rq
     \<and> fd c' = fd c \<and> wres w' = wres w \<and> sock_trace w' = sock_trace w"
proof (induction ms arbitrary: c w)
  case Nil
  then show ?case by auto
next
  case (Cons m ms)
  obtain oid op p where m: "m = (oid, op, p)" by (cases m)
  from Cons.prems(1) m have wf: "8 + length p < 65536" and nd: "\<not> (oid = idDCSource \<and> op = 1)"
    by (simp_all add: wf_msg_def cancelled_def)
  from Cons.prems(2) m
  have f: "feeds (inBuf c) (recvq w) (frame oid op p @ frames ms @ tail) rq"
    by simp
  from readMsg_feeds [OF wf f] obtain d c' w' where
    r: "readMsg c w = (RMsg oid op p d, c', w')"
    and f': "feeds (inBuf c') (recvq w') (frames ms @ tail) rq"
    and k: "fd c' = fd c" "wres w' = wres w" "trace w' = trace w"
    by blast
  define w1 where "w1 =
     (if oid \<noteq> idDCSource then closeIfFd d w'
      else if op = 0 then
          (if 0 \<le> d
           then emit w' ((case map_of formats (fst (decodeString p)) of
                            Some data \<Rightarrow> [FdWrite d data]
                          | None \<Rightarrow> []) @ [FdClose d])
           else w')
      else w')"
  have st: "serveLoop formats c w = serveLoop formats c' w1"
    using nd by (auto simp add: serveLoop_step [OF r] w1_def)
  have k1: "recvq w1 = recvq w'" "wres w1 = wres w'" "sock_trace w1 = sock_trace w'"
    by (simp_all add: w1_def split: option.splits)
  have p1: "\<forall>m\<in>set ms. wf_msg m \<and> \<not> cancelled m" using Cons.prems(1) by simp
  have p2: "feeds (inBuf c') (recvq w1) (frames ms @ tail) rq"
    using f' k1 by simp
  from Cons.IH [OF p1 p2] obtain c'' w'' where
    "serveLoop formats c' w1 = serveLoop formats c'' w''"
    "feeds (inBuf c'') (recvq w'') tail rq"
    "fd c'' = fd c'" "wres w'' = wres w1" "sock_trace w'' = sock_trace w1"
    by blast
  then show ?case
    unfolding st using k k1 sock_trace_cong [OF k(3)] by auto
qed

subsection \<open>What the loops add to the trace\<close>

lemma quiet_ext_refl [simp]: "quiet_ext w w"
  by (simp add: quiet_ext_def)

lemma quiet_ext_trans: "quiet_ext w w' \<Longrightarrow> quiet_ext w' w'' \<Longrightarrow> quiet_ext w w''"
  by (auto simp add: quiet_ext_def)

lemma quiet_ext_readMsg: "readMsg c w = (r, c', w') \<Longrightarrow> quiet_ext w w'"
  using readMsg_world [of c w r c' w'] by (simp add: quiet_ext_def)

lemma quiet_ext_closeIfFd [simp]: "quiet_ext w (closeIfFd d w)"
  by (simp add: quiet_ext_def closeIfFd_def)

lemma quiet_ext_serve [simp]:
  "quiet_ext w (emit w ((case x of Some data \<Rightarrow> [FdWrite d data] | None \<Rightarrow> []) @ [FdClose d]))"
  by (cases x) (simp_all add: quiet_ext_def)

lemma awaitCallback2_quiet:
  "quiet_ext w (snd (snd (awaitCallback2 c w)))"
proof (induction c w rule: awaitCallback2.induct)
  case (1 c w)
  obtain r c' w' where rm: "readMsg c w = (r, c', w')"
    by (cases "readMsg c w")
  note q = quiet_ext_readMsg [OF rm]
  show ?case
  proof (cases r)
    case (RMsg oid op p d)
    note rm' = rm [unfolded RMsg]
    show ?thesis
    proof (cases "oid = idCallback2 \<and> op = 0")
      case True
      have "quiet_ext w (closeIfFd d w')"
        by (rule quiet_ext_trans [OF q]) simp
      then show ?thesis
        using True by (simp add: awaitCallback2_step [OF rm'])
    next
      case False
      have "quiet_ext w (closeIfFd d w')"
        by (rule quiet_ext_trans [OF q]) simp
      from quiet_ext_trans [OF this "1.IH" [OF rm' [symmetric] refl refl False]]
      show ?thesis
        using False by (auto simp add: awaitCallback2_step [OF rm'])
    qed
  next
    case (RErr e)
    then show ?thesis using q by (simp add: awaitCallback2_stop(1) [OF rm [unfolded RErr]])
  next
    case RBlocked
    then show ?thesis using q by (simp add: awaitCallback2_stop(2) [OF rm [unfolded RBlocked]])
  qed
qed

lemma serveLoop_quiet:
  "quiet_ext w (snd (serveLoop formats c w))"
proof (induction formats c w rule: serveLoop.induct)
  case (1 formats c w)
  obtain r c' w' where rm: "readMsg c w = (r, c', w')"
    by (cases "readMsg c w")
  note q = quiet_ext_readMsg [OF rm]
  show ?case
  proof (cases r)
    case (RMsg oid op p d)
    note rm' = rm [unfolded RMsg]
    note st = serveLoop_step [OF rm', of formats]
    consider (other) "oid \<noteq> idDCSource" | (send) "oid = idDCSource" "op = 0"
      | (cancel) "oid = idDCSource" "op = 1" | (unknown) "oid = idDCSource" "op \<noteq> 0" "op \<noteq> 1"
      by blast
    then show ?thesis
    proof cases
      case other
      have "quiet_ext w (closeIfFd d w')"
        by (rule quiet_ext_trans [OF q]) simp
      from quiet_ext_trans [OF this "1.IH"(1) [OF rm' [symmetric] refl refl other]]
      show ?thesis using other by (simp add: st)
    next
      case send
      obtain m rest e where ds: "decodeString p = (m, rest, e)"
        by (cases "decodeString p") auto
      let ?w1 = "if 0 \<le> d
           then emit w' ((case map_of formats m of
                            Some data \<Rightarrow> [FdWrite d data]
                          | None \<Rightarrow> []) @ [FdClose d])
           else w'"
      have "quiet_ext w' ?w1" by simp
      from quiet_ext_trans [OF q this] have q1: "quiet_ext w ?w1" .
      have nn: "\<not> oid \<noteq> idDCSource" using send by simp
      from "1.IH"(2) [OF rm' [symmetric] refl refl nn send(2) refl ds [symmetric] refl]
      have "quiet_ext ?w1 (snd (serveLoop formats c' ?w1))" .
      from quiet_ext_trans [OF q1 this]
      show ?thesis using send by (cases "0 \<le> d") (simp_all add: st ds)
    next
      case cancel
      then show ?thesis using q by (simp add: st)
    next
      case unknown
      have nn: "\<not> oid \<noteq> idDCSource" using unknown by simp
      from quiet_ext_trans [OF q "1.IH"(3) [OF rm' [symmetric] refl refl nn unknown(2,3)]]
      show ?thesis using unknown by (simp add: st)
    qed
  next
    case (RErr e)
    then show ?thesis using q by (simp add: serveLoop_stop(1) [OF rm [unfolded RErr]])
  next
    case RBlocked
    then show ?thesis using q by (simp add: serveLoop_stop(2) [OF rm [unfolded RBlocked]])
  qed
qed

lemma serveLoop_trace_ext: "\<exists>es. trace (snd (serveLoop formats c w)) = trace w @ es"
  using serveLoop_quiet [of w formats c] unfolding quiet_ext_def by blast

subsection \<open>Requests\<close>

lemma writes_ok_cong: "wres w' = wres w \<Longrightarrow> writes_ok w' = writes_ok w"
  by (simp add: writes_ok_def)

lemma writes_ok_emit [simp]: "writes_ok (emit w es) = writes_ok w"
  by (simp add: writes_ok_def)

lemma andThen_SOk [simp]: "andThen (SOk, w) k = k w"
  by (simp add: andThen_def)

lemma sendMsg_ok:
  assumes "writes_ok w" "8 + length args < 65536"
  shows "sendMsg c w oid op args = (SOk, emit w [SockWrite (fd c) (frame oid op args)])"
proof -
  have u: "unat (of_nat (8 + length args) :: u16) = 8 + length args"
    using assms(2) by (rule unat_len16)
  show ?thesis
    unfolding sendMsg_def Let_def u frame_def using assms(1)
    by (simp add: writes_ok_def)
qed

lemma length_encodeUint32 [simp]: "length (encodeUint32 v) = 4"
  by (simp add: encodeUint32_def)

lemma length_wl_seat: "length (encodeString wl_seat) = 12"
  by (simp add: length_encodeString pad4_eq wl_seat_def bytes_of_def)

lemma length_zwlr: "length (encodeString zwlr_data_control_manager_v1) = 36"
  by (simp add: length_encodeString pad4_eq zwlr_data_control_manager_v1_def bytes_of_def)

lemma is_sock_offer_requests [simp]: "filter is_sock (offer_requests s fs) = offer_requests s fs"
  by (induction fs) (simp_all add: offer_requests_def)

lemma sendOffers_ok:
  "writes_ok w \<Longrightarrow> mimes_ok formats \<Longrightarrow>
     sendOffers c w formats = (SOk, emit w (offer_requests (fd c) formats))"
proof (induction formats arbitrary: w)
  case Nil
  then show ?case by (simp add: offer_requests_def)
next
  case (Cons x fs)
  obtain m d where x: "x = (m, d)" by (cases x)
  have l: "8 + length (encodeString m) < 65536" using Cons.prems(2) x by (simp add: mimes_ok_def)
  have fs: "mimes_ok fs" using Cons.prems(2) by (simp add: mimes_ok_def)
  have w1: "writes_ok (emit w [SockWrite (fd c) (frame idDCSource 0 (encodeString m))])"
    using Cons.prems(1) by simp
  show ?case
    unfolding x
    by (simp add: sendMsg_ok [OF Cons.prems(1) l] Cons.IH [OF w1 fs] offer_requests_def)
qed

subsection \<open>Advertisements\<close>

lemma ifaces_distinct: "wl_seat \<noteq> zwlr_data_control_manager_v1"
  by (simp add: wl_seat_def zwlr_data_control_manager_v1_def bytes_of_def)

lemma bootStep_cases:
  "bootStep g m =
     (if advertises wl_seat m then g\<lparr>seatName := adv_name m, seatFound := True\<rparr>
      else if advertises zwlr_data_control_manager_v1 m
        then g\<lparr>dcManagerName := adv_name m, dcManagerFound := True\<rparr>
      else g)"
  using ifaces_distinct
  by (cases m) (auto simp add: bootStep_def advertises_def adv_name_def onGlobal_def Let_def
      split: prod.splits)

lemma lastAdv_snoc:
  "lastAdv iface (ms @ [m]) = (if advertises iface m then Some (adv_name m) else lastAdv iface ms)"
  by (simp add: lastAdv_def)

lemma adv_excl: "advertises wl_seat m \<Longrightarrow> \<not> advertises zwlr_data_control_manager_v1 m"
  using ifaces_distinct by (auto simp add: advertises_def split: prod.splits)

lemma lastAdv_Nil [simp]: "lastAdv iface [] = None"
  by (simp add: lastAdv_def)

lemma lastAdv_None: "lastAdv iface ms = None \<longleftrightarrow> (\<forall>m\<in>set ms. \<not> advertises iface m)"
  by (simp add: lastAdv_def filter_empty_conv)

lemma foldl_bootStep:
  "foldl bootStep g ms =
     \<lparr>seatName = (case lastAdv wl_seat ms of None \<Rightarrow> seatName g | Some a \<Rightarrow> a),
      dcManagerName =
        (case lastAdv zwlr_data_control_manager_v1 ms of None \<Rightarrow> dcManagerName g | Some b \<Rightarrow> b),
      seatFound = (seatFound g \<or> lastAdv wl_seat ms \<noteq> None),
      dcManagerFound = (dcManagerFound g \<or> lastAdv zwlr_data_control_manager_v1 ms \<noteq> None)\<rparr>"
proof (induction ms rule: rev_induct)
  case Nil
  then show ?case by simp
next
  case (snoc m ms)
  let ?g = "\<lparr>seatName = (case lastAdv wl_seat ms of None \<Rightarrow> seatName g | Some a \<Rightarrow> a),
      dcManagerName =
        (case lastAdv zwlr_data_control_manager_v1 ms of None \<Rightarrow> dcManagerName g | Some b \<Rightarrow> b),
      seatFound = (seatFound g \<or> lastAdv wl_seat ms \<noteq> None),
      dcManagerFound = (dcManagerFound g \<or> lastAdv zwlr_data_control_manager_v1 ms \<noteq> None)\<rparr>"
  have "foldl bootStep g (ms @ [m]) = bootStep (foldl bootStep g ms) m"
    by simp
  also have "\<dots> = bootStep ?g m"
    by (simp only: snoc.IH)
  also have "\<dots> =
     \<lparr>seatName = (case lastAdv wl_seat (ms @ [m]) of None \<Rightarrow> seatName g | Some a \<Rightarrow> a),
      dcManagerName =
        (case lastAdv zwlr_data_control_manager_v1 (ms @ [m]) of
           None \<Rightarrow> dcManagerName g | Some b \<Rightarrow> b),
      seatFound = (seatFound g \<or> lastAdv wl_seat (ms @ [m]) \<noteq> None),
      dcManagerFound =
        (dcManagerFound g \<or> lastAdv zwlr_data_control_manager_v1 (ms @ [m]) \<noteq> None)\<rparr>"
    by (cases "advertises wl_seat m"; cases "advertises zwlr_data_control_manager_v1 m")
      (simp_all add: bootStep_cases lastAdv_snoc adv_excl)
  finally show ?case .
qed

subsection \<open>From the connection to the Serving state\<close>

lemma Serve_connects:
  "connects env w s \<Longrightarrow>
     Serve env formats w =
       deferred_close \<lparr>fd = s, inBuf = [], pendingFds = []\<rparr>
         (session formats \<lparr>fd = s, inBuf = [], pendingFds = []\<rparr> w)"
  by (simp add: connects_def Serve_def Let_def newConn_def)

lemma session_boot:
  assumes ok: "writes_ok w" and dp: "8 + length dp < 65536"
    and ms: "\<forall>m\<in>set ms. wf_msg m \<and> \<not> done_on idCallback1 m"
    and f: "feeds (inBuf c) (recvq w) (frames ms @ frame idCallback1 0 dp @ tail) rq"
  shows "\<exists>c' w'. session formats c w = afterFirstSync formats c' w' (foldl bootStep g0 ms)
           \<and> feeds (inBuf c') (recvq w') tail rq
           \<and> fd c' = fd c \<and> wres w' = wres w
           \<and> sock_trace w' = sock_trace w @ first_requests (fd c)"
proof -
  let ?w1 = "emit w [SockWrite (fd c) (frame idDisplay 1 (encodeUint32 idRegistry))]"
  let ?w2 = "emit ?w1 [SockWrite (fd c) (frame idDisplay 0 (encodeUint32 idCallback1))]"
  have ok1: "writes_ok ?w1" using ok by simp
  have f2: "feeds (inBuf c) (recvq ?w2) (frames ms @ frame idCallback1 0 dp @ tail) rq"
    using f by simp
  from collectGlobals_msgs [OF dp ms f2, of g0] obtain c' w' where
    cg: "collectGlobals c ?w2 g0 = (LDone (foldl bootStep g0 ms), c', w')"
    and k: "feeds (inBuf c') (recvq w') tail rq" "fd c' = fd c" "wres w' = wres ?w2"
      "sock_trace w' = sock_trace ?w2"
    by blast
  have "session formats c w = afterFirstSync formats c' w' (foldl bootStep g0 ms)"
    unfolding session_def using ok
    by (simp add: sendMsg_ok cg [unfolded g0_def, simplified] g0_def)
  moreover have "wres w' = wres w" "sock_trace w' = sock_trace w @ first_requests (fd c)"
    using k by (simp_all add: first_requests_def)
  ultimately show ?thesis
    using k(1,2) by blast
qed

lemma afterFirstSync_serving:
  assumes ok: "writes_ok w" and dp: "8 + length dp < 65536"
    and found: "seatFound g" "dcManagerFound g"
    and fm: "mimes_ok formats"
    and ms: "\<forall>m\<in>set ms. wf_msg m \<and> \<not> done_on idCallback2 m"
    and f: "feeds (inBuf c) (recvq w) (frames ms @ frame idCallback2 0 dp @ tail) rq"
  shows "\<exists>c' w'. afterFirstSync formats c w g = serveLoop formats c' w'
           \<and> feeds (inBuf c') (recvq w') tail rq
           \<and> fd c' = fd c \<and> wres w' = wres w
           \<and> sock_trace w' = sock_trace w @ bind_requests (fd c) (seatName g) (dcManagerName g)
                                @ source_requests (fd c) formats"
proof -
  let ?w7 = "emit w (bind_requests (fd c) (seatName g) (dcManagerName g) @ source_requests (fd c) formats)"
  have f7: "feeds (inBuf c) (recvq ?w7) (frames ms @ frame idCallback2 0 dp @ tail) rq"
    using f by simp
  from awaitCallback2_msgs [OF dp ms f7] obtain c' w' where
    aw: "awaitCallback2 c ?w7 = (LDone (), c', w')"
    and k: "feeds (inBuf c') (recvq w') tail rq" "fd c' = fd c" "wres w' = wres ?w7"
      "sock_trace w' = sock_trace ?w7"
    by blast
  have "afterFirstSync formats c w g = serveLoop formats c' w'"
    unfolding afterFirstSync_def afterBind_def using found ok fm
    by (simp add: sendMsg_ok sendOffers_ok length_wl_seat length_zwlr
        aw [unfolded bind_requests_def source_requests_def, simplified])
  moreover have "wres w' = wres w"
    "sock_trace w' = sock_trace w @ bind_requests (fd c) (seatName g) (dcManagerName g)
                                @ source_requests (fd c) formats"
    using k by (simp_all add: bind_requests_def source_requests_def)
  ultimately show ?thesis
    using k(1,2) by blast
qed

lemma Serve_serving:
  assumes "enters_serving env formats w s tail rq"
  shows "\<exists>c' w'. Serve env formats w = deferred_close c' (serveLoop formats c' w')
           \<and> fd c' = s \<and> feeds (inBuf c') (recvq w') tail rq"
proof -
  let ?c = "\<lparr>fd = s, inBuf = [], pendingFds = []\<rparr>"
  from assms obtain ms1 dp1 ms2 dp2 where co: "connects env w s" and fm: "mimes_ok formats"
    and ms1: "\<forall>m\<in>set ms1. wf_msg m \<and> \<not> done_on idCallback1 m" and dp1: "8 + length dp1 < 65536"
    and adv: "lastAdv wl_seat ms1 \<noteq> None" "lastAdv zwlr_data_control_manager_v1 ms1 \<noteq> None"
    and ms2: "\<forall>m\<in>set ms2. wf_msg m \<and> \<not> done_on idCallback2 m" and dp2: "8 + length dp2 < 65536"
    and f: "feeds [] (recvq w)
              (frames ms1 @ frame idCallback1 0 dp1 @ frames ms2 @ frame idCallback2 0 dp2 @ tail) rq"
    unfolding enters_serving_def by blast
  have ok: "writes_ok w"
    using co by (simp add: connects_def)
  have f': "feeds (inBuf ?c) (recvq w)
              (frames ms1 @ frame idCallback1 0 dp1 @ frames ms2 @ frame idCallback2 0 dp2 @ tail) rq"
    using f by simp
  from session_boot [OF ok dp1 ms1 f', of formats] obtain c1 w1 where
    se: "session formats ?c w = afterFirstSync formats c1 w1 (foldl bootStep g0 ms1)"
    and k1: "feeds (inBuf c1) (recvq w1) (frames ms2 @ frame idCallback2 0 dp2 @ tail) rq"
      "fd c1 = fd ?c" "wres w1 = wres w"
    by blast
  have ok1: "writes_ok w1" using ok k1(3) by (simp add: writes_ok_def)
  have g: "seatFound (foldl bootStep g0 ms1)" "dcManagerFound (foldl bootStep g0 ms1)"
    using adv by (simp_all add: foldl_bootStep)
  from afterFirstSync_serving [OF ok1 dp2 g fm ms2 k1(1)] obtain c2 w2 where
    af: "afterFirstSync formats c1 w1 (foldl bootStep g0 ms1) = serveLoop formats c2 w2"
    and k2: "feeds (inBuf c2) (recvq w2) tail rq" "fd c2 = fd c1"
    by blast
  have "deferred_close ?c r = deferred_close c2 r" for r
    using k1(2) k2(2) by (simp add: deferred_close_def close_def split: prod.splits outcome.splits)
  then have "Serve env formats w = deferred_close c2 (serveLoop formats c2 w2)"
    by (simp add: Serve_connects [OF co] se af)
  with k1(2) k2 show ?thesis by auto
qed

subsection \<open>Bind requests in the trace\<close>

lemma binds_emit [simp]: "binds (emit w es) = binds w @ filter is_bind es"
  by (simp add: binds_def)

lemma binds_cong: "trace w' = trace w \<Longrightarrow> binds w' = binds w"
  by (simp add: binds_def)

lemma binds_closeIfFd [simp]: "binds (closeIfFd d w) = binds w"
  by (simp add: closeIfFd_def)

lemma frame_not_bind:
  assumes "oid \<noteq> idRegistry"
  shows "\<not> is_bind (SockWrite s (le_PutUint32 oid @ rest))"
  using assms by (simp add: le_Uint32_PutUint32)

lemma sendMsg_binds:
  "oid \<noteq> idRegistry \<Longrightarrow> binds (snd (sendMsg c w oid op args)) = binds w"
  unfolding sendMsg_def Let_def
  by (cases "unat (word_of_nat (8 + length args) :: u16) < 8") (simp_all add: le_Uint32_PutUint32)

lemma sendOffers_binds: "binds (snd (sendOffers c w fs)) = binds w"
proof (induction fs arbitrary: w)
  case Nil
  then show ?case by simp
next
  case (Cons x fs)
  obtain m d where x: "x = (m, d)" by (cases x)
  obtain r w' where s: "sendMsg c w idDCSource 0 (encodeString m) = (r, w')"
    by (cases "sendMsg c w idDCSource 0 (encodeString m)")
  have "idDCSource \<noteq> idRegistry" by (simp add: idDCSource_def idRegistry_def)
  from sendMsg_binds [OF this, of c w 0 "encodeString m"] s have b: "binds w' = binds w"
    by simp
  show ?case
    unfolding x using b Cons.IH [of w'] by (cases r) (simp_all add: s)
qed

lemma andThen_binds:
  assumes "binds (snd r) = B" and "\<And>w. binds w = B \<Longrightarrow> binds (snd (k w)) = B"
  shows "binds (snd (andThen r k)) = B"
proof -
  obtain x w where r: "r = (x, w)" by (cases r)
  show ?thesis
    using assms unfolding r by (cases x) (simp_all add: andThen_def)
qed

lemma is_bind_is_sock: "is_bind e \<Longrightarrow> is_sock e"
  by (cases e) simp_all

lemma quiet_ext_binds:
  assumes "quiet_ext w w'"
  shows "binds w' = binds w"
proof -
  from assms obtain es where es: "trace w' = trace w @ es" "\<forall>e\<in>set es. \<not> is_sock e"
    unfolding quiet_ext_def by blast
  from es(2) have "\<forall>e\<in>set es. \<not> is_bind e"
    using is_bind_is_sock by blast
  then have "filter is_bind es = []"
    by (simp add: filter_empty_conv)
  with es(1) show ?thesis
    by (simp add: binds_def)
qed

lemma binds_sock_trace: "binds w = filter is_bind (sock_trace w)"
  using is_bind_is_sock
  by (auto simp add: binds_def sock_trace_def intro!: filter_cong)

lemma confirm_serve_binds:
  "binds (snd (case awaitCallback2 c w of
        (LBlocked, c', w') \<Rightarrow> (Blocked, w')
      | (LErr e, c', w') \<Rightarrow> (Returned (Some e), w')
      | (LDone u, c', w') \<Rightarrow> serveLoop formats c' w')) = binds w"
proof -
  obtain r c' w' where a: "awaitCallback2 c w = (r, c', w')"
    by (cases "awaitCallback2 c w")
  from awaitCallback2_quiet [of w c] a have q: "quiet_ext w w'" by simp
  show ?thesis
  proof (cases r)
    case (LDone u)
    from quiet_ext_trans [OF q serveLoop_quiet [of w' formats c']]
    show ?thesis by (simp add: a LDone quiet_ext_binds)
  qed (simp_all add: a quiet_ext_binds [OF q])
qed

lemma afterBind_binds: "binds (snd (afterBind formats c w)) = binds w"
proof -
  have ids: "idDCManager \<noteq> idRegistry" "idDCDevice \<noteq> idRegistry" "idDisplay \<noteq> idRegistry"
    by (simp_all add: idDCManager_def idDCDevice_def idDisplay_def idRegistry_def)
  show ?thesis
    unfolding afterBind_def
    apply (rule andThen_binds, simp add: sendMsg_binds ids)
    apply (rule andThen_binds, simp add: sendOffers_binds)
    apply (rule andThen_binds, simp add: sendMsg_binds ids)
    apply (rule andThen_binds, simp add: sendMsg_binds ids)
    apply (rule andThen_binds, simp add: sendMsg_binds ids)
    apply (simp add: confirm_serve_binds)
    done
qed

lemma is_bind_frame: "8 + length p < 65536 \<Longrightarrow> is_bind (SockWrite s (frame idRegistry 0 p))"
  by (simp add: objectID_prefix [OF refl] opcode_prefix [OF refl])

lemma filter_bind_requests: "filter is_bind (bind_requests s a b) = bind_requests s a b"
  by (simp add: bind_requests_def is_bind_frame length_wl_seat length_zwlr del: is_bind.simps)

lemma filter_first_requests: "filter is_bind (first_requests s) = []"
  by (simp add: first_requests_def frame_def le_Uint32_PutUint32 idDisplay_def idRegistry_def)

subsection \<open>The example session\<close>

lemma wf_global_event:
  "length iface < 65000 \<Longrightarrow> wf_msg (global_event n iface v)"
  by (simp add: wf_msg_def global_event_def length_encodeString pad4_eq)

lemma not_done_global_event [simp]: "\<not> done_on idCallback1 (global_event n iface v)"
  by (simp add: done_on_def global_event_def)

lemma advertises_global_event:
  assumes "length iface < 65000"
  shows "advertises i (global_event n iface v) \<longleftrightarrow> i = iface"
proof -
  have "length iface + 1 < 2 ^ 32" using assms by simp
  from decodeString_encodeString_append [OF this, of "encodeUint32 v"]
  show ?thesis
    by (auto simp add: advertises_def global_event_def)
qed

lemma adv_name_global_event [simp]: "adv_name (global_event n iface v) = n"
  by (simp add: adv_name_def global_event_def encodeUint32_def le_Uint32_PutUint32)

lemma length_ifaces: "length wl_seat < 65000" "length zwlr_data_control_manager_v1 < 65000"
  by (simp_all add: wl_seat_def zwlr_data_control_manager_v1_def bytes_of_def)

lemma connects_example: "connects example_env (example_world q) 3"
  by (simp add: connects_def example_env_def example_world_def os_Getenv_def writes_ok_def bytes_of_def)

lemma mimes_ok_example: "mimes_ok example_formats"
  by (simp add: mimes_ok_def example_formats_def length_encodeString pad4_eq bytes_of_def)

lemma feeds_one_chunk:
  "bs \<noteq> [] \<Longrightarrow> feeds [] (recvq (example_world (RecvData bs ds # rq))) (bs @ []) rq"
  by (intro feedsI [where cs = "[(bs, ds)]"]) (simp_all add: example_world_def chunks_def)

lemma enters_serving_example:
  assumes "tail \<noteq> []"
  shows "enters_serving example_env example_formats
           (example_world (RecvData example_handshake ds # RecvData tail ds' # rq)) 3 tail rq"
  unfolding enters_serving_def
proof (intro conjI exI)
  show "connects example_env (example_world (RecvData example_handshake ds # RecvData tail ds' # rq)) 3"
    by (rule connects_example)
  show "mimes_ok example_formats" by (rule mimes_ok_example)
  show "\<forall>m\<in>set [global_event 7 wl_seat 1, global_event 9 zwlr_data_control_manager_v1 2].
          wf_msg m \<and> \<not> done_on idCallback1 m"
    by (simp add: wf_global_event length_ifaces)
  show "8 + length (encodeUint32 0) < 65536" by simp
  then show "8 + length (encodeUint32 0) < 65536" .
  show "lastAdv wl_seat [global_event 7 wl_seat 1, global_event 9 zwlr_data_control_manager_v1 2] \<noteq> None"
    by (simp add: lastAdv_def advertises_global_event length_ifaces)
  show "lastAdv zwlr_data_control_manager_v1
          [global_event 7 wl_seat 1, global_event 9 zwlr_data_control_manager_v1 2] \<noteq> None"
    by (simp add: lastAdv_def advertises_global_event length_ifaces)
  show "\<forall>m\<in>set []. wf_msg m \<and> \<not> done_on idCallback2 m" by simp
  show "feeds [] (recvq (example_world (RecvData example_handshake ds # RecvData tail ds' # rq)))
     (frames [global_event 7 wl_seat 1, global_event 9 zwlr_data_control_manager_v1 2]
      @ frame idCallback1 0 (encodeUint32 0) @ frames [] @ frame idCallback2 0 (encodeUint32 0) @ tail) rq"
    using assms
    by (intro feedsI [where cs = "[(example_handshake, ds), (tail, ds')]"])
      (simp_all add: example_handshake_def example_world_def chunks_def)
qed

lemma readMsg_one_frame:
  assumes "8 + length p < 65536"
  shows "readMsg \<lparr>fd = s, inBuf = [], pendingFds = []\<rparr> (example_world (RecvData (frame oid op p) [d] # rq))
           = (RMsg oid op p d, \<lparr>fd = s, inBuf = [], pendingFds = []\<rparr>, example_world rq)"
proof -
  let ?c = "\<lparr>fd = s, inBuf = [], pendingFds = []\<rparr>"
  let ?c1 = "\<lparr>fd = s, inBuf = frame oid op p, pendingFds = [d]\<rparr>"
  have "readMsg ?c (example_world (RecvData (frame oid op p) [d] # rq)) = readMsg ?c1 (example_world rq)"
    by (subst readMsg_drained) (simp_all add: example_world_def)
  also have "\<dots> = (RMsg oid op p d, ?c, example_world rq)"
    by (subst readMsg_buffered [OF assms, where tail = "[]" and rest = "[]"]) simp_all
  finally show ?thesis .
qed


section \<open>Bootstrap\<close>

text \<open>
  Claim C6.  Let the session connect and write its requests, and let the peer send any
  well-formed events \<open>ms\<close>, none of them the \<^verbatim>\<open>done\<close> of the first callback, and then
  that \<^verbatim>\<open>done\<close>, cut into chunks in any way.  If no event of \<open>ms\<close> is taken by the loop
  as an advertisement of \<^verbatim>\<open>wl_seat\<close>, or none as one of
  \<^verbatim>\<open>zwlr_data_control_manager_v1\<close>, then \<open>Serve\<close> returns the error that names the
  missing interface (\<^verbatim>\<open>wl_seat\<close> when both are missing), and what it did on the socket
  is the two first requests and the close: no bind, no selection request.
\<close>

theorem Serve_missing_global:
  assumes co: "connects env w s"
    and ms: "\<forall>m\<in>set ms. wf_msg m \<and> \<not> done_on idCallback1 m"
    and dp: "8 + length dp < 65536"
    and f: "feeds [] (recvq w) (frames ms @ frame idCallback1 0 dp @ tail) rq"
    and missing: "(\<forall>m\<in>set ms. \<not> advertises wl_seat m)
                  \<or> (\<forall>m\<in>set ms. \<not> advertises zwlr_data_control_manager_v1 m)"
  shows "fst (Serve env formats w) =
           Returned (Some (if \<forall>m\<in>set ms. \<not> advertises wl_seat m then ErrSeatNotFound
                           else ErrDCManagerNotFound))
         \<and> sock_trace (snd (Serve env formats w)) = first_requests s @ [SockClose s]"
proof -
  let ?c = "\<lparr>fd = s, inBuf = [], pendingFds = []\<rparr>"
  have ok: "writes_ok w" and tr: "sock_trace w = []"
    using co by (simp_all add: connects_def sock_trace_def)
  have f': "feeds (inBuf ?c) (recvq w) (frames ms @ frame idCallback1 0 dp @ tail) rq"
    using f by simp
  from session_boot [OF ok dp ms f', of formats] obtain c' w' where
    se: "session formats ?c w = afterFirstSync formats c' w' (foldl bootStep g0 ms)"
    and k: "fd c' = fd ?c" "sock_trace w' = sock_trace w @ first_requests (fd ?c)"
    by blast
  have nf: "\<not> (seatFound (foldl bootStep g0 ms) \<and> dcManagerFound (foldl bootStep g0 ms))"
    using missing by (auto simp add: foldl_bootStep g0_def lastAdv_None)
  have sf: "seatFound (foldl bootStep g0 ms) \<longleftrightarrow> \<not> (\<forall>m\<in>set ms. \<not> advertises wl_seat m)"
    by (simp add: foldl_bootStep g0_def lastAdv_None)
  have "afterFirstSync formats c' w' (foldl bootStep g0 ms) =
          (Returned (Some (if \<forall>m\<in>set ms. \<not> advertises wl_seat m then ErrSeatNotFound
                           else ErrDCManagerNotFound)), w')"
    using nf sf unfolding afterFirstSync_def by auto
  then show ?thesis
    using k tr
    by (simp add: Serve_connects [OF co] se deferred_close_def close_def)
qed

theorem Serve_missing_global_witness:
  "fst (Serve example_env example_formats
          (example_world
             [RecvData (frames [global_event 1 (bytes_of ''wl_compositor'') 4,
                                global_event 7 wl_seat 1]
                        @ frame idCallback1 0 (encodeUint32 0)) []]))
     = Returned (Some ErrDCManagerNotFound)
   \<and> sock_trace (snd (Serve example_env example_formats
          (example_world
             [RecvData (frames [global_event 1 (bytes_of ''wl_compositor'') 4,
                                global_event 7 wl_seat 1]
                        @ frame idCallback1 0 (encodeUint32 0)) []])))
     = first_requests 3 @ [SockClose 3]"
proof -
  let ?ms = "[global_event 1 (bytes_of ''wl_compositor'') 4, global_event 7 wl_seat 1]"
  let ?bs = "frames ?ms @ frame idCallback1 0 (encodeUint32 0)"
  have lc: "length (bytes_of ''wl_compositor'') < 65000" by (simp add: bytes_of_def)
  have ne: "bytes_of ''wl_compositor'' \<noteq> wl_seat"
      "zwlr_data_control_manager_v1 \<noteq> bytes_of ''wl_compositor''"
    by (simp_all add: wl_seat_def zwlr_data_control_manager_v1_def bytes_of_def)
  have ms: "\<forall>m\<in>set ?ms. wf_msg m \<and> \<not> done_on idCallback1 m"
    by (simp add: wf_global_event length_ifaces lc)
  have dp: "8 + length (encodeUint32 0) < 65536" by simp
  have f: "feeds [] (recvq (example_world [RecvData ?bs []]))
             (frames ?ms @ frame idCallback1 0 (encodeUint32 0) @ []) []"
    using feeds_one_chunk [of ?bs "[]" "[]"] by simp
  have missing: "(\<forall>m\<in>set ?ms. \<not> advertises wl_seat m)
                  \<or> (\<forall>m\<in>set ?ms. \<not> advertises zwlr_data_control_manager_v1 m)"
    using ne ifaces_distinct by (simp add: advertises_global_event length_ifaces lc)
  have seat: "\<not> (\<forall>m\<in>set ?ms. \<not> advertises wl_seat m)"
    by (simp add: advertises_global_event length_ifaces lc)
  show ?thesis
    using Serve_missing_global [OF connects_example ms dp f missing, of example_formats] seat
    by simp
qed

text \<open>
  Claim C7.  Let the peer send any well-formed events \<open>ms\<close> and then the \<^verbatim>\<open>done\<close> of
  the first callback, and let \<open>a\<close> and \<open>b\<close> be the names of the last advertisements in
  \<open>ms\<close> of \<^verbatim>\<open>wl_seat\<close> and of \<^verbatim>\<open>zwlr_data_control_manager_v1\<close>.  Whatever the peer sends
  afterwards and whatever the offer table is, the bind requests in the trace of \<open>Serve\<close>
  are exactly two: the one for \<open>a\<close>, then the one for \<open>b\<close>.  Unrelated globals and
  earlier advertisements of the same interface change nothing.  The witness is the
  scripted peer of the specification with names 7 and 9, an unrelated global and an
  earlier \<^verbatim>\<open>wl_seat\<close> of name 5.
\<close>

theorem Serve_binds:
  assumes co: "connects env w s"
    and ms: "\<forall>m\<in>set ms. wf_msg m \<and> \<not> done_on idCallback1 m"
    and dp: "8 + length dp < 65536"
    and f: "feeds [] (recvq w) (frames ms @ frame idCallback1 0 dp @ tail) rq"
    and seat: "lastAdv wl_seat ms = Some a"
    and mgr: "lastAdv zwlr_data_control_manager_v1 ms = Some b"
  shows "filter is_bind (trace (snd (Serve env formats w))) = bind_requests s a b"
proof -
  let ?c = "\<lparr>fd = s, inBuf = [], pendingFds = []\<rparr>"
  let ?g = "foldl bootStep g0 ms"
  have ok: "writes_ok w" and tr: "sock_trace w = []"
    using co by (simp_all add: connects_def sock_trace_def)
  have f': "feeds (inBuf ?c) (recvq w) (frames ms @ frame idCallback1 0 dp @ tail) rq"
    using f by simp
  from session_boot [OF ok dp ms f', of formats] obtain c' w' where
    se: "session formats ?c w = afterFirstSync formats c' w' ?g"
    and k: "fd c' = fd ?c" "wres w' = wres w" "sock_trace w' = sock_trace w @ first_requests (fd ?c)"
    by blast
  have ok': "writes_ok w'" using ok k(2) by (simp add: writes_ok_def)
  have b0: "binds w' = []"
    using k(3) tr by (simp add: binds_sock_trace filter_first_requests)
  have g: "seatFound ?g" "dcManagerFound ?g" "seatName ?g = a" "dcManagerName ?g = b"
    using seat mgr by (simp_all add: foldl_bootStep)
  have "afterFirstSync formats c' w' ?g = afterBind formats c' (emit w' (bind_requests s a b))"
    unfolding afterFirstSync_def using g ok' k(1)
    by (simp add: sendMsg_ok length_wl_seat length_zwlr bind_requests_def)
  then have "binds (snd (session formats ?c w)) = bind_requests s a b"
    using b0 by (simp add: se afterBind_binds filter_bind_requests)
  then show ?thesis
    unfolding Serve_connects [OF co] binds_def deferred_close_def close_def
    by (cases "session formats ?c w") (auto split: outcome.splits)
qed

theorem Serve_binds_witness:
  "filter is_bind (trace (snd (Serve example_env example_formats
          (example_world
             [RecvData (frames [global_event 5 wl_seat 1,
                                global_event 1 (bytes_of ''wl_compositor'') 4,
                                global_event 7 wl_seat 1,
                                global_event 9 zwlr_data_control_manager_v1 2]
                        @ frame idCallback1 0 (encodeUint32 0)) []]))))
     = bind_requests 3 7 9"
proof -
  let ?ms = "[global_event 5 wl_seat 1, global_event 1 (bytes_of ''wl_compositor'') 4,
              global_event 7 wl_seat 1, global_event 9 zwlr_data_control_manager_v1 2]"
  let ?bs = "frames ?ms @ frame idCallback1 0 (encodeUint32 0)"
  have lc: "length (bytes_of ''wl_compositor'') < 65000" by (simp add: bytes_of_def)
  have ne: "wl_seat \<noteq> bytes_of ''wl_compositor''"
      "zwlr_data_control_manager_v1 \<noteq> bytes_of ''wl_compositor''"
    by (simp_all add: wl_seat_def zwlr_data_control_manager_v1_def bytes_of_def)
  have ms: "\<forall>m\<in>set ?ms. wf_msg m \<and> \<not> done_on idCallback1 m"
    by (simp add: wf_global_event length_ifaces lc)
  have dp: "8 + length (encodeUint32 0) < 65536" by simp
  have f: "feeds [] (recvq (example_world [RecvData ?bs []]))
             (frames ?ms @ frame idCallback1 0 (encodeUint32 0) @ []) []"
    using feeds_one_chunk [of ?bs "[]" "[]"] by simp
  have seat: "lastAdv wl_seat ?ms = Some 7"
    using ne ifaces_distinct by (simp add: lastAdv_def advertises_global_event length_ifaces lc)
  have mgr: "lastAdv zwlr_data_control_manager_v1 ?ms = Some 9"
    using ne ifaces_distinct ifaces_distinct [symmetric]
    by (simp add: lastAdv_def advertises_global_event length_ifaces lc)
  show ?thesis
    using Serve_binds [OF connects_example ms dp f seat mgr, of example_formats]
    by simp
qed

section \<open>Serving\<close>

text \<open>
  Claim C1.  In the serve loop, let \<open>readMsg\<close> return a \<^verbatim>\<open>send\<close> event (opcode 0 on
  the data source) with a descriptor \<open>d \<ge> 0\<close>.  The requested type is the string
  decoded from the payload.  If it is a key of the offer table, the loop makes one write
  of the whole payload to \<open>d\<close> and then closes \<open>d\<close>; if it is not, it writes nothing
  and closes \<open>d\<close>.  These are the next calls of the session, before anything the loop
  does afterwards.  The witness has the two examples of the specification: the type
  \<^verbatim>\<open>text/plain\<close> of the table, and a type that is not in it.
\<close>

theorem serveLoop_send:
  assumes r: "readMsg c w = (RMsg idDCSource 0 payload d, c', w')" and d: "0 \<le> d"
  shows "serveLoop formats c w =
           serveLoop formats c'
             (emit w' (case map_of formats (fst (decodeString payload)) of
                         Some dat \<Rightarrow> [FdWrite d dat, FdClose d]
                       | None \<Rightarrow> [FdClose d]))
         \<and> (\<exists>es. trace (snd (serveLoop formats c w)) =
                   trace w @ (case map_of formats (fst (decodeString payload)) of
                                Some dat \<Rightarrow> [FdWrite d dat, FdClose d]
                              | None \<Rightarrow> [FdClose d]) @ es)"
proof -
  let ?ev = "case map_of formats (fst (decodeString payload)) of
               Some dat \<Rightarrow> [FdWrite d dat, FdClose d] | None \<Rightarrow> [FdClose d]"
  have eq: "serveLoop formats c w = serveLoop formats c' (emit w' ?ev)"
    using d by (simp add: serveLoop_step [OF r] split: option.splits)
  from serveLoop_trace_ext [of formats c' "emit w' ?ev"] obtain es where
    "trace (snd (serveLoop formats c' (emit w' ?ev))) = trace (emit w' ?ev) @ es"
    by blast
  with readMsg_world [OF r] have "trace (snd (serveLoop formats c w)) = trace w @ ?ev @ es"
    unfolding eq by simp
  with eq show ?thesis by blast
qed

theorem serveLoop_send_witness:
  "(\<exists>es. trace (snd (serveLoop example_formats \<lparr>fd = 3, inBuf = [], pendingFds = []\<rparr>
      (example_world
         [RecvData (frame idDCSource 0 (encodeString (bytes_of ''text/plain''))) [11]])))
     = [FdWrite 11 (bytes_of ''hello''), FdClose 11] @ es)
   \<and> (\<exists>es. trace (snd (serveLoop example_formats \<lparr>fd = 3, inBuf = [], pendingFds = []\<rparr>
      (example_world
         [RecvData (frame idDCSource 0 (encodeString (bytes_of ''application/x-unknown''))) [12]])))
     = [FdClose 12] @ es)"
proof -
  have l: "8 + length (encodeString (bytes_of ''text/plain'')) < 65536"
    "8 + length (encodeString (bytes_of ''application/x-unknown'')) < 65536"
    by (simp_all add: length_encodeString pad4_eq bytes_of_def)
  have m: "fst (decodeString (encodeString (bytes_of ''text/plain''))) = bytes_of ''text/plain''"
    "fst (decodeString (encodeString (bytes_of ''application/x-unknown'')))
       = bytes_of ''application/x-unknown''"
    by (subst decodeString_encodeString_append [of _ "[]", simplified], simp_all add: bytes_of_def)+
  have f: "map_of example_formats (bytes_of ''text/plain'') = Some (bytes_of ''hello'')"
    "map_of example_formats (bytes_of ''application/x-unknown'') = None"
    by (simp_all add: example_formats_def bytes_of_def)
  have t: "trace (example_world q) = []" for q
    by (simp add: example_world_def)
  have d: "(0 :: int) \<le> 11" "(0 :: int) \<le> 12"
    by simp_all
  from serveLoop_send [OF readMsg_one_frame [OF l(1)] d(1), where formats = example_formats, THEN conjunct2]
    serveLoop_send [OF readMsg_one_frame [OF l(2)] d(2), where formats = example_formats, THEN conjunct2]
  show ?thesis
    by (simp add: m f t)
qed

text \<open>
  Claim C2.  Let the session enter the Serving state, and let the peer then send any
  well-formed events \<open>ms\<close>, none of them \<^verbatim>\<open>cancelled\<close> on the data source, followed by
  \<^verbatim>\<open>cancelled\<close> on the data source, cut into chunks in any way and with any
  descriptors.  Then \<open>Serve\<close> returns without error, and the last call it made is the
  close of the socket.
\<close>

theorem Serve_cancelled:
  assumes en: "enters_serving env formats w s (frames ms @ frame idDCSource 1 p @ tail) rq"
    and ms: "\<forall>m\<in>set ms. wf_msg m \<and> \<not> cancelled m"
    and p: "8 + length p < 65536"
  shows "fst (Serve env formats w) = Returned None
         \<and> last (trace (snd (Serve env formats w))) = SockClose s"
proof -
  from Serve_serving [OF en] obtain c1 w1 where
    se: "Serve env formats w = deferred_close c1 (serveLoop formats c1 w1)"
    and k1: "fd c1 = s" "feeds (inBuf c1) (recvq w1) (frames ms @ frame idDCSource 1 p @ tail) rq"
    by blast
  from serveLoop_msgs [OF ms k1(2), of formats] obtain c2 w2 where
    sl: "serveLoop formats c1 w1 = serveLoop formats c2 w2"
    and k2: "feeds (inBuf c2) (recvq w2) (frame idDCSource 1 p @ tail) rq"
    by blast
  from readMsg_feeds [OF p k2] obtain d c3 w3 where
    r: "readMsg c2 w2 = (RMsg idDCSource 1 p d, c3, w3)"
    by blast
  have "serveLoop formats c1 w1 = (Returned None, w3)"
    unfolding sl by (rule serveLoop_cancelled [OF r])
  then show ?thesis
    unfolding se using k1(1) by (simp add: deferred_close_def close_def)
qed

theorem Serve_cancelled_witness:
  "fst (Serve example_env example_formats
          (example_world
             [RecvData example_handshake [],
              RecvData (frames [(idDCSource, 0, encodeString (bytes_of ''text/plain''))]
                        @ frame idDCSource 1 []) [11]])) = Returned None
   \<and> last (trace (snd (Serve example_env example_formats
          (example_world
             [RecvData example_handshake [],
              RecvData (frames [(idDCSource, 0, encodeString (bytes_of ''text/plain''))]
                        @ frame idDCSource 1 []) [11]])))) = SockClose 3"
proof -
  have ms: "\<forall>m\<in>set [(idDCSource, 0, encodeString (bytes_of ''text/plain''))].
              wf_msg m \<and> \<not> cancelled m"
    by (simp add: wf_msg_def cancelled_def length_encodeString pad4_eq bytes_of_def)
  have p: "8 + length ([] :: bytes) < 65536" by simp
  have ne: "frames [(idDCSource, 0, encodeString (bytes_of ''text/plain''))]
              @ frame idDCSource 1 [] @ [] \<noteq> []"
    by simp
  show ?thesis
    using Serve_cancelled [OF enters_serving_example [OF ne] ms p, of "[]" "[11]"] by simp
qed




text \<open>
  Claim C9 fails on the code.  A descriptor that comes with an event of opcode 2 on the data
  source is taken from the queue by \<open>readMsg\<close> and never closed: \<open>Serve\<close> returns, and its
  trace has no close of descriptor 12.
\<close>

theorem Serve_leaks_descriptor:
  "fst (Serve example_env example_formats
          (example_world
             [RecvData example_handshake [], RecvData (frame idDCSource 2 []) [12],
              RecvData [] []]))
     = Returned None
   \<and> FdClose 12
       \<notin> set (trace (snd (Serve example_env example_formats
          (example_world
             [RecvData example_handshake [], RecvData (frame idDCSource 2 []) [12],
              RecvData [] []]))))"
  by code_simp

end
